theory Spec2Isabelle
  imports Main
begin

section \<open>The drag-and-drop uploader: data model\<close>

text \<open>
  The development embeds the upload queue of \<^verbatim>\<open>topics/react/dnd-uploader\<close>: the types of
  \<^verbatim>\<open>types.ts\<close>, the helpers of \<^verbatim>\<open>utils.ts\<close>, the transfer simulator \<^verbatim>\<open>mockUpload\<close> of
  \<^verbatim>\<open>api.ts\<close>, the scheduler \<^verbatim>\<open>useUploadQueue\<close> and the commands of the component
  \<^verbatim>\<open>A11yUploader\<close>.

  React state is modelled by explicit state passing: \<^verbatim>\<open>setItems(f)\<close> applies the updater
  \<^verbatim>\<open>f\<close> to the current item list, updaters run in the order in which they were
  submitted, and the reactions of a settled promise (\<^verbatim>\<open>then\<close>, \<^verbatim>\<open>catch\<close>, \<^verbatim>\<open>finally\<close>) run
  as microtasks at the end of the task that settled it. Random choices and the clock
  (\<^verbatim>\<open>Math.random\<close>, \<^verbatim>\<open>Date.now\<close>, \<^verbatim>\<open>uid\<close>, \<^verbatim>\<open>URL.createObjectURL\<close>) are parameters.
\<close>

datatype UploadStatus = Idle | Queued | Uploading | Success | Error | Canceled

record File =
  file_name :: string
  file_size :: nat
  file_type :: string
  lastModified :: int

text \<open>
  An \<^verbatim>\<open>AbortController\<close> is a shared mutable object: an item holds a reference to it, and
  the copies of an item made by \<^verbatim>\<open>{...it}\<close> share it. The reference is the index of the
  controller in the store of the queue (\<open>uploads\<close> below).
\<close>

record Item =
  item_id :: string
  item_file :: File
  previewUrl :: string
  progress :: int
  status :: UploadStatus
  error :: "string option"
  serverUrl :: "string option"
  abortCtrl :: "nat option"

subsection \<open>The constants of A11yUploader.tsx\<close>

text \<open>The component declares them for itself and does not export them.\<close>

definition ACCEPT :: "string list" where
  "ACCEPT = [''image/png'', ''image/jpeg'', ''image/webp'']"

definition MAX_SIZE_BYTES :: nat where
  "MAX_SIZE_BYTES = 5 * 1024 * 1024"

definition MAX_FILES :: nat where
  "MAX_FILES = 10"

subsection \<open>utils.ts\<close>

definition isDuplicate :: "File \<Rightarrow> File \<Rightarrow> bool" where
  "isDuplicate a b =
     (file_name a = file_name b \<and> file_size a = file_size b \<and> lastModified a = lastModified b)"

text \<open>
  \<^verbatim>\<open>validateFile\<close> returns a message or \<^verbatim>\<open>null\<close>. The text of the message formats the
  size with \<^verbatim>\<open>toFixed(2)\<close>; the model keeps what the message is about.
\<close>

datatype validation_error = BadType string | TooLarge nat

text \<open>
  The \<^verbatim>\<open>ReferenceError\<close> of an identifier that no scope declares
  (\<^verbatim>\<open>ACCEPT is not defined\<close>).
\<close>

datatype scope_error = NotDefined string

text \<open>
  The body of \<^verbatim>\<open>validateFile\<close> reads two free identifiers, \<^verbatim>\<open>ACCEPT\<close> and
  \<^verbatim>\<open>MAX_SIZE_BYTES\<close>. What they are bound to is a parameter of the body: \<open>None\<close> for an
  identifier that is not declared, whose evaluation throws.
\<close>

definition validateBody ::
  "string list option \<Rightarrow> nat option \<Rightarrow> File \<Rightarrow> scope_error + validation_error option" where
  "validateBody accept maxSizeBytes f =
     (case accept of
        None \<Rightarrow> Inl (NotDefined ''ACCEPT'')
      | Some types \<Rightarrow>
          if file_type f \<notin> set types then Inr (Some (BadType (file_type f)))
          else
            (case maxSizeBytes of
               None \<Rightarrow> Inl (NotDefined ''MAX_SIZE_BYTES'')
             | Some bytes \<Rightarrow>
                 if file_size f > bytes then Inr (Some (TooLarge (file_size f))) else Inr None))"

text \<open>
  \<^verbatim>\<open>validateFile\<close> as \<^verbatim>\<open>utils.ts\<close> has it: the module declares neither identifier and
  imports nothing, so every call throws at \<^verbatim>\<open>ACCEPT\<close>.
\<close>

definition validateFile :: "File \<Rightarrow> scope_error + validation_error option" where
  "validateFile f = validateBody None None f"

text \<open>The same body with the two constants of the component in scope.\<close>

definition validateInScope :: "File \<Rightarrow> scope_error + validation_error option" where
  "validateInScope f = validateBody (Some ACCEPT) (Some MAX_SIZE_BYTES) f"

section \<open>The transfer simulator (api.ts)\<close>

text \<open>
  What a promise of \<^verbatim>\<open>mockUpload\<close> can be rejected with: the \<^verbatim>\<open>DOMException\<close> of
  \<^verbatim>\<open>onAbort\<close> (message, name), the \<^verbatim>\<open>Error\<close> of the simulated failure (message) and a
  \<^verbatim>\<open>ReferenceError\<close> for reading a \<^verbatim>\<open>const\<close> binding before its declaration has run
  (the name of the binding).
\<close>

datatype js_error = DOMException string string | JsError string | ReferenceError string

datatype settlement = Resolved string | Rejected js_error

text \<open>The literal of the simulated failure, as UTF-8 bytes ("a network error occurred").\<close>

definition networkErrorMessage :: string where
  "networkErrorMessage = map char_of
     [235, 132, 164, 237, 138, 184, 236, 155, 140, 237, 129, 172, 32, 236, 152, 164, 235,
      165, 152, 234, 176, 128, 32, 235, 176, 156, 236, 131, 157, 237, 150, 136, 236, 138,
      181, 235, 139, 136, 235, 139, 164, 46 :: nat]"

text \<open>\<^verbatim>\<open>err.message\<close>; the wording for the \<^verbatim>\<open>ReferenceError\<close> is the engine's (here V8's).\<close>

fun message :: "js_error \<Rightarrow> string" where
  "message (DOMException m n) = m"
| "message (JsError m) = m"
| "message (ReferenceError v) =
     ''Cannot access '' @ [CHR 0x27] @ v @ [CHR 0x27] @ '' before initialization''"

text \<open>
  The binding \<^verbatim>\<open>const timer\<close> of the executor: not yet initialised (its declaration comes
  after the \<^verbatim>\<open>if (signal)\<close> block), an interval that runs, or an interval that was
  cleared.
\<close>

datatype timer_binding = Uninitialised | Active | Cleared

text \<open>
  The state of one call of \<^verbatim>\<open>mockUpload\<close>: the local \<^verbatim>\<open>canceled\<close>, the binding
  \<^verbatim>\<open>timer\<close>, whether \<^verbatim>\<open>onAbort\<close> is registered as a listener of the signal, and the
  promise (\<open>None\<close> while it is pending).
\<close>

record mock =
  canceled :: bool
  timer :: timer_binding
  listening :: bool
  promise :: "settlement option"

text \<open>\<^verbatim>\<open>resolve\<close> and \<^verbatim>\<open>reject\<close> settle a pending promise and do nothing to a settled one.\<close>

definition settle :: "settlement \<Rightarrow> mock \<Rightarrow> mock" where
  "settle v m = (case promise m of None \<Rightarrow> m\<lparr>promise := Some v\<rparr> | Some w \<Rightarrow> m)"

text \<open>
  \<^verbatim>\<open>onAbort\<close>: sets \<^verbatim>\<open>canceled\<close>, then evaluates \<^verbatim>\<open>clearInterval(timer)\<close>, which throws when
  \<^verbatim>\<open>timer\<close> is not initialised, then rejects. The result is the exception thrown, if
  any, and the state.
\<close>

definition onAbort :: "mock \<Rightarrow> js_error option \<times> mock" where
  "onAbort m =
     (let m1 = m\<lparr>canceled := True\<rparr> in
      if timer m1 = Uninitialised then (Some (ReferenceError ''timer''), m1)
      else (None, settle (Rejected (DOMException ''Aborted'' ''AbortError'')) (m1\<lparr>timer := Cleared\<rparr>)))"

text \<open>
  The executor of \<^verbatim>\<open>mockUpload\<close>. The argument is the signal: \<open>None\<close> when there is none,
  \<open>Some b\<close> for a signal with \<^verbatim>\<open>signal.aborted = b\<close>. An exception that leaves the executor
  rejects the promise.
\<close>

definition mockUpload :: "bool option \<Rightarrow> mock" where
  "mockUpload signal =
     (let m0 = \<lparr>canceled = False, timer = Uninitialised, listening = False, promise = None\<rparr> in
      case signal of
        None \<Rightarrow> m0\<lparr>timer := Active\<rparr>
      | Some sig_aborted \<Rightarrow>
          if sig_aborted then
            (case onAbort m0 of
               (Some e, m1) \<Rightarrow> settle (Rejected e) m1
             | (None, m1) \<Rightarrow> m1)
          else m0\<lparr>listening := True, timer := Active\<rparr>)"

text \<open>
  The signal dispatches \<^verbatim>\<open>abort\<close>: the listener was registered with \<^verbatim>\<open>once\<close>, and an
  exception of a listener does not reach the caller of \<^verbatim>\<open>abort()\<close>.
\<close>

definition dispatchAbort :: "mock \<Rightarrow> mock" where
  "dispatchAbort m = (if listening m then snd (onAbort (m\<lparr>listening := False\<rparr>)) else m)"

text \<open>
  One firing of the interval. \<open>raw\<close> is \<^verbatim>\<open>Math.floor((elapsed / totalMs) * 100)\<close>,
  \<open>finished\<close> is \<^verbatim>\<open>elapsed >= totalMs\<close>, \<open>fail\<close> is the random choice of a failure and
  \<open>url\<close> the object URL of the result. An interval that is not running does not fire.
  The result lists the calls of \<^verbatim>\<open>onProgress\<close>, in order.
\<close>

definition tick :: "int \<Rightarrow> bool \<Rightarrow> bool \<Rightarrow> string \<Rightarrow> mock \<Rightarrow> int list \<times> mock" where
  "tick raw finished fail url m =
     (if timer m \<noteq> Active then ([], m)
      else if canceled m then ([], m)
      else
        (let pct = min 99 raw in
         if finished then
           (let m1 = m\<lparr>timer := Cleared\<rparr> in
            if fail then ([pct], settle (Rejected (JsError networkErrorMessage)) m1)
            else ([pct, 100], settle (Resolved url) m1))
         else ([pct], m)))"

section \<open>The queue: the component A11yUploader and the hook useUploadQueue\<close>

text \<open>
  Each admission of \<^verbatim>\<open>pump\<close> makes one \<^verbatim>\<open>AbortController\<close> and one call of
  \<^verbatim>\<open>mockUpload\<close> with its signal. The store keeps them together, in the order of their
  creation: the item id that the handlers of the call captured (\<^verbatim>\<open>it.id\<close>),
  \<^verbatim>\<open>signal.aborted\<close>, and the state of the call.
\<close>

record upload =
  forId :: string
  aborted :: bool
  call :: mock

record queue =
  items :: "Item list"
  running :: int
  uploads :: "upload list"

definition init :: queue where
  "init = \<lparr>items = [], running = 0, uploads = []\<rparr>"

definition CONCURRENCY :: int where
  "CONCURRENCY = 3"

subsection \<open>The handlers that pump attaches to a transfer\<close>

definition onProgress :: "string \<Rightarrow> int \<Rightarrow> Item list \<Rightarrow> Item list" where
  "onProgress i p cur = map (\<lambda>x. if item_id x = i then x\<lparr>progress := p\<rparr> else x) cur"

definition onFulfilled :: "string \<Rightarrow> string \<Rightarrow> Item list \<Rightarrow> Item list" where
  "onFulfilled i url cur =
     map (\<lambda>x. if item_id x = i then x\<lparr>status := Success, serverUrl := Some url, progress := 100\<rparr>
               else x) cur"

text \<open>\<^verbatim>\<open>err instanceof DOMException && err.name === "AbortError"\<close>\<close>

fun isAbort :: "js_error \<Rightarrow> bool" where
  "isAbort (DOMException m n) = (n = ''AbortError'')"
| "isAbort (JsError m) = False"
| "isAbort (ReferenceError v) = False"

definition onRejected :: "string \<Rightarrow> js_error \<Rightarrow> Item list \<Rightarrow> Item list" where
  "onRejected i err cur =
     map (\<lambda>x. if item_id x = i
               then x\<lparr>status := (if isAbort err then Canceled else Error),
                      error := (if isAbort err then None else Some (message err))\<rparr>
               else x) cur"

text \<open>
  The reactions of the promise of transfer \<open>k\<close>, once it is settled: \<^verbatim>\<open>then\<close> or
  \<^verbatim>\<open>catch\<close>, and \<^verbatim>\<open>finally\<close>, which decrements \<^verbatim>\<open>running.current\<close> (its
  \<^verbatim>\<open>setTimeout(pump, 0)\<close> is a later \<open>Pump\<close> event).
\<close>

definition react :: "nat \<Rightarrow> queue \<Rightarrow> queue" where
  "react k s =
     (if k < length (uploads s) then
        (case promise (call (uploads s ! k)) of
           None \<Rightarrow> s
         | Some (Resolved url) \<Rightarrow>
             s\<lparr>items := onFulfilled (forId (uploads s ! k)) url (items s), running := running s - 1\<rparr>
         | Some (Rejected e) \<Rightarrow>
             s\<lparr>items := onRejected (forId (uploads s ! k)) e (items s), running := running s - 1\<rparr>)
      else s)"

definition drain :: "nat list \<Rightarrow> queue \<Rightarrow> queue" where
  "drain jobs s = foldl (\<lambda>s k. react k s) s jobs"

subsection \<open>pump\<close>

text \<open>
  The loop \<^verbatim>\<open>for (i = 0; i < next.length && started < available; i++)\<close> over the rest of
  the list, with \<^verbatim>\<open>started\<close>, \<^verbatim>\<open>running.current\<close> and the store as the loop state.
\<close>

fun pump_loop ::
  "int \<Rightarrow> Item list \<Rightarrow> int \<times> int \<times> upload list \<Rightarrow> Item list \<times> int \<times> int \<times> upload list" where
  "pump_loop available [] st = ([], st)"
| "pump_loop available (it # rest) (started, run, us) =
     (if started < available then
        (if status it = Queued then
           (let ctrl = length us;
                it' = it\<lparr>abortCtrl := Some ctrl, status := Uploading\<rparr>;
                u = \<lparr>forId = item_id it, aborted = False, call = mockUpload (Some False)\<rparr>;
                (rest', st') = pump_loop available rest (started + 1, run + 1, us @ [u])
            in (it' # rest', st'))
         else
           (let (rest', st') = pump_loop available rest (started, run, us)
            in (it # rest', st')))
      else (it # rest, (started, run, us)))"

definition pump :: "queue \<Rightarrow> queue" where
  "pump s =
     (if running s \<ge> CONCURRENCY then s
      else
        (let available = CONCURRENCY - running s;
             (next, started, run, us) = pump_loop available (items s) (0, running s, uploads s)
         in s\<lparr>items := next, running := run, uploads := us\<rparr>))"

subsection \<open>The commands of the component\<close>

text \<open>
  \<^verbatim>\<open>ctrl.abort()\<close> on the store: nothing happens when the signal is aborted already;
  otherwise the signal becomes aborted and dispatches the event. The second component
  collects the promises that the call has settled, whose reactions run after the
  updater. A reference of an item always points into the store (\<^verbatim>\<open>pump\<close> is the only
  place that sets one), so the last branch is never taken for a reference from outside.
\<close>

definition abort :: "nat \<Rightarrow> upload list \<times> nat list \<Rightarrow> upload list \<times> nat list" where
  "abort k h =
     (let us = fst h; jobs = snd h in
      if k < length us \<and> \<not> aborted (us ! k) then
        (let u = us ! k; c = dispatchAbort (call u) in
         (us[k := u\<lparr>aborted := True, call := c\<rparr>],
          if promise (call u) = None \<and> promise c \<noteq> None then jobs @ [k] else jobs))
      else h)"

text \<open>\<^verbatim>\<open>if (it.status === "uploading" && it.abortCtrl) it.abortCtrl.abort()\<close>\<close>

definition abortIfUploading :: "Item \<Rightarrow> upload list \<times> nat list \<Rightarrow> upload list \<times> nat list" where
  "abortIfUploading it h =
     (if status it = Uploading then (case abortCtrl it of Some k \<Rightarrow> abort k h | None \<Rightarrow> h) else h)"

fun cancelItem_map ::
  "string \<Rightarrow> Item list \<Rightarrow> upload list \<times> nat list \<Rightarrow> Item list \<times> upload list \<times> nat list" where
  "cancelItem_map i [] h = ([], h)"
| "cancelItem_map i (it # rest) h =
     (if item_id it \<noteq> i then
        (let (rest', h') = cancelItem_map i rest h in (it # rest', h'))
      else
        (let h1 = abortIfUploading it h;
             (rest', h') = cancelItem_map i rest h1
         in (it\<lparr>status := Canceled\<rparr> # rest', h')))"

definition cancelItem :: "string \<Rightarrow> queue \<Rightarrow> queue" where
  "cancelItem i s =
     (let (next, us, jobs) = cancelItem_map i (items s) (uploads s, [])
      in drain jobs (s\<lparr>items := next, uploads := us\<rparr>))"

definition retryItem :: "string \<Rightarrow> queue \<Rightarrow> queue" where
  "retryItem i s =
     s\<lparr>items := map (\<lambda>it. if item_id it = i
                            then it\<lparr>status := Queued, progress := 0, error := None\<rparr>
                            else it) (items s)\<rparr>"

definition removeItem :: "string \<Rightarrow> queue \<Rightarrow> queue" where
  "removeItem i s = s\<lparr>items := filter (\<lambda>x. item_id x \<noteq> i) (items s)\<rparr>"

definition startAll :: "queue \<Rightarrow> queue" where
  "startAll s =
     s\<lparr>items := map (\<lambda>it. if status it = Idle \<or> status it = Error \<or> status it = Canceled
                            then it\<lparr>status := Queued, progress := 0, error := None\<rparr>
                            else it) (items s)\<rparr>"

fun cancelAll_map ::
  "Item list \<Rightarrow> upload list \<times> nat list \<Rightarrow> Item list \<times> upload list \<times> nat list" where
  "cancelAll_map [] h = ([], h)"
| "cancelAll_map (it # rest) h =
     (let h1 = abortIfUploading it h;
          (rest', h') = cancelAll_map rest h1
      in (it\<lparr>status := (if status it = Success then status it else Canceled)\<rparr> # rest', h'))"

definition cancelAll :: "queue \<Rightarrow> queue" where
  "cancelAll s =
     (let (next, us, jobs) = cancelAll_map (items s) (uploads s, [])
      in drain jobs (s\<lparr>items := next, uploads := us\<rparr>))"

subsection \<open>pushFiles\<close>

text \<open>
  The \<^verbatim>\<open>forEach\<close> over the files that passed the duplicate filter, with \<^verbatim>\<open>toAdd\<close> and
  \<^verbatim>\<open>errors\<close> as its state. The function that it calls to validate a file is the
  parameter \<open>validate\<close>; an exception of that call leaves the loop. \<open>uid n\<close> and \<open>url n\<close>
  are the results of the \<open>n\<close>-th call of \<^verbatim>\<open>uid()\<close> and of \<^verbatim>\<open>URL.createObjectURL\<close> in this
  run. An entry of \<open>errors\<close> is the name of the file and what the validation returned.
\<close>

fun validate_each ::
  "(File \<Rightarrow> scope_error + validation_error option) \<Rightarrow> (nat \<Rightarrow> string) \<Rightarrow> (nat \<Rightarrow> string) \<Rightarrow>
   File list \<Rightarrow> Item list \<times> (string \<times> validation_error) list \<Rightarrow>
   scope_error + Item list \<times> (string \<times> validation_error) list" where
  "validate_each validate uid url [] acc = Inr acc"
| "validate_each validate uid url (f # fs) (toAdd, errors) =
     (case validate f of
        Inl thrown \<Rightarrow> Inl thrown
      | Inr (Some err) \<Rightarrow> validate_each validate uid url fs (toAdd, errors @ [(file_name f, err)])
      | Inr None \<Rightarrow>
          validate_each validate uid url fs
            (toAdd @ [\<lparr>item_id = uid (length toAdd), item_file = f, previewUrl = url (length toAdd),
                       progress = 0, status = Queued, error = None, serverUrl = None,
                       abortCtrl = None\<rparr>],
             errors))"

text \<open>
  The updater of \<^verbatim>\<open>pushFiles\<close>: the exception that leaves it, or the new list and the errors
  that \<^verbatim>\<open>setAlert\<close> shows.
\<close>

definition pushFilesWith ::
  "(File \<Rightarrow> scope_error + validation_error option) \<Rightarrow> (nat \<Rightarrow> string) \<Rightarrow> (nat \<Rightarrow> string) \<Rightarrow>
   File list \<Rightarrow> Item list \<Rightarrow> scope_error + Item list \<times> (string \<times> validation_error) list" where
  "pushFilesWith validate uid url arr prev =
     (let next = prev;
          remain = nat (max 0 (int MAX_FILES - int (length next)));
          pick = take remain arr;
          dupFiltered = filter (\<lambda>f. \<not> list_ex (\<lambda>x. isDuplicate f (item_file x)) next) pick
      in case validate_each validate uid url dupFiltered ([], []) of
           Inl thrown \<Rightarrow> Inl thrown
         | Inr (toAdd, errors) \<Rightarrow> Inr (next @ toAdd, errors))"

text \<open>\<^verbatim>\<open>pushFiles\<close> as the component has it calls \<^verbatim>\<open>validateFile\<close> of \<^verbatim>\<open>utils.ts\<close>.\<close>

definition pushFiles ::
  "(nat \<Rightarrow> string) \<Rightarrow> (nat \<Rightarrow> string) \<Rightarrow> File list \<Rightarrow> Item list \<Rightarrow>
   scope_error + Item list \<times> (string \<times> validation_error) list" where
  "pushFiles uid url arr prev = pushFilesWith validateFile uid url arr prev"

subsection \<open>Events\<close>

text \<open>
  A firing of the interval of transfer \<open>k\<close>, followed by the reactions of its promise when
  the firing settled it.
\<close>

definition Tick :: "nat \<Rightarrow> int \<Rightarrow> bool \<Rightarrow> bool \<Rightarrow> string \<Rightarrow> queue \<Rightarrow> queue" where
  "Tick k raw finished fail url s =
     (if k < length (uploads s) then
        (let u = uploads s ! k;
             (calls, c) = tick raw finished fail url (call u);
             s1 = s\<lparr>items := foldl (\<lambda>cur p. onProgress (forId u) p cur) (items s) calls,
                    uploads := (uploads s)[k := u\<lparr>call := c\<rparr>]\<rparr>
         in if promise (call u) = None \<and> promise c \<noteq> None then react k s1 else s1)
      else s)"

datatype event =
    PushFiles "nat \<Rightarrow> string" "nat \<Rightarrow> string" "File list"
  | CancelItem string
  | RetryItem string
  | RemoveItem string
  | StartAll
  | CancelAll
  | Pump
  | Timer nat int bool bool string

text \<open>
  An enqueue whose updater throws leaves the list as it is. As \<^verbatim>\<open>utils.ts\<close> stands,
  \<^verbatim>\<open>pushFiles\<close> throws or returns the list unchanged, so no item would ever exist. The
  events take the enqueue with the constants of the component in scope instead; the
  enqueue of the source is the one of these steps that pushes no file, so every run of
  the source is a run of these events.
\<close>

definition enqueue ::
  "(File \<Rightarrow> scope_error + validation_error option) \<Rightarrow> (nat \<Rightarrow> string) \<Rightarrow> (nat \<Rightarrow> string) \<Rightarrow>
   File list \<Rightarrow> queue \<Rightarrow> queue" where
  "enqueue validate uid url arr s =
     (case pushFilesWith validate uid url arr (items s) of
        Inl thrown \<Rightarrow> s
      | Inr (next, errors) \<Rightarrow> s\<lparr>items := next\<rparr>)"

fun step :: "queue \<Rightarrow> event \<Rightarrow> queue" where
  "step s (PushFiles uid url arr) = enqueue validateInScope uid url arr s"
| "step s (CancelItem i) = cancelItem i s"
| "step s (RetryItem i) = retryItem i s"
| "step s (RemoveItem i) = removeItem i s"
| "step s StartAll = startAll s"
| "step s CancelAll = cancelAll s"
| "step s Pump = pump s"
| "step s (Timer k raw finished fail url) = Tick k raw finished fail url s"

definition run :: "event list \<Rightarrow> queue" where
  "run evs = foldl step init evs"

text \<open>
  The events that do not put an item with the id \<open>x\<close> into the queue: all but a retry
  for \<open>x\<close>, \<^verbatim>\<open>startAll\<close> (which queues the canceled items again) and an enqueue in which
  \<^verbatim>\<open>uid()\<close> returns \<open>x\<close> for a new item.
\<close>

fun quiet :: "string \<Rightarrow> event \<Rightarrow> bool" where
  "quiet x (RetryItem j) = (j \<noteq> x)"
| "quiet x StartAll = False"
| "quiet x (PushFiles uid url arr) = (x \<notin> set (map uid [0..<length arr]))"
| "quiet x e = True"

subsection \<open>The view\<close>

text \<open>
  The buttons of an item: the view renders the cancel button when
  \<^verbatim>\<open>it.status === "uploading" || it.status === "queued"\<close> and the retry button when
  \<^verbatim>\<open>it.status === "error"\<close>.
\<close>

definition offersCancel :: "Item \<Rightarrow> bool" where
  "offersCancel it = (status it = Uploading \<or> status it = Queued)"

definition offersRetry :: "Item \<Rightarrow> bool" where
  "offersRetry it = (status it = Error)"

section \<open>Notions used by the properties\<close>

text \<open>The number of queued items in front of position \<open>i\<close>.\<close>

definition queued_before :: "nat \<Rightarrow> Item list \<Rightarrow> nat" where
  "queued_before i its = length (filter (\<lambda>it. status it = Queued) (take i its))"

text \<open>A transfer is pending while its promise is.\<close>

definition pending :: "upload \<Rightarrow> bool" where
  "pending u = (promise (call u) = None)"

text \<open>
  An item is linked to the store when its controller is the one of a pending transfer
  that was started for the id of the item.
\<close>

definition linked :: "upload list \<Rightarrow> Item \<Rightarrow> bool" where
  "linked us it =
     (case abortCtrl it of
        None \<Rightarrow> False
      | Some k \<Rightarrow> k < length us \<and> pending (us ! k) \<and> forId (us ! k) = item_id it)"

definition ctrls :: "Item list \<Rightarrow> nat option list" where
  "ctrls its = map abortCtrl (filter (\<lambda>it. status it = Uploading) its)"

text \<open>
  The items and the store are wired when the uploading items are linked and no two of
  them share a controller.
\<close>

definition wired :: "Item list \<Rightarrow> upload list \<Rightarrow> bool" where
  "wired its us =
     (distinct (ctrls its) \<and> (\<forall>it \<in> set its. status it = Uploading \<longrightarrow> linked us it))"

text \<open>
  The accounting of \<^verbatim>\<open>running.current\<close> while an updater runs: the pending transfers
  and the settled ones whose reactions have not run yet.
\<close>

definition acct :: "upload list \<Rightarrow> nat list \<Rightarrow> int \<Rightarrow> bool" where
  "acct us jobs r =
     (r = int (length (filter pending us)) + int (length jobs) \<and>
      (\<forall>k \<in> set jobs. k < length us \<and> \<not> pending (us ! k)))"

definition inv :: "queue \<Rightarrow> bool" where
  "inv s =
     (wired (items s) (uploads s) \<and>
      running s = int (length (filter pending (uploads s))) \<and>
      running s \<le> CONCURRENCY)"

text \<open>
  The controllers that a run of \<^verbatim>\<open>abort()\<close> calls over the given items can reach, and
  what such a run does to the store: it keeps its length and the ids of the transfers,
  settles promises but never reopens one, touches only the reachable controllers, and
  keeps the accounting.
\<close>

definition targets :: "Item list \<Rightarrow> nat set" where
  "targets its = {k. \<exists>it \<in> set its. status it = Uploading \<and> abortCtrl it = Some k}"

definition evolves :: "nat set \<Rightarrow> upload list \<times> nat list \<Rightarrow> upload list \<times> nat list \<Rightarrow> bool" where
  "evolves K h h' =
     (length (fst h') = length (fst h) \<and>
      (\<forall>j < length (fst h).
         forId (fst h' ! j) = forId (fst h ! j) \<and>
         (pending (fst h' ! j) \<longrightarrow> pending (fst h ! j)) \<and>
         (j \<notin> K \<longrightarrow> fst h' ! j = fst h ! j)) \<and>
      (\<forall>r. acct (fst h) (snd h) r \<longrightarrow> acct (fst h') (snd h') r))"

text \<open>
  The items with the id \<open>x\<close> are parked: no transfer of the store was started for \<open>x\<close>,
  and every item with the id \<open>x\<close> is canceled and is one of the items of \<open>base\<close>, field
  by field.
\<close>

definition parked :: "string \<Rightarrow> Item list \<Rightarrow> queue \<Rightarrow> bool" where
  "parked x base t =
     (x \<notin> forId ` set (uploads t) \<and>
      (\<forall>it \<in> set (items t). item_id it = x \<longrightarrow> status it = Canceled \<and> it \<in> set base))"

text \<open>
  A transfer is armed when \<^verbatim>\<open>abort()\<close> on its controller rejects its promise: the signal
  is not aborted yet, the promise is pending and \<^verbatim>\<open>onAbort\<close> listens with \<^verbatim>\<open>timer\<close>
  initialised. The promises that a run of \<^verbatim>\<open>abort()\<close> calls settles are rejected with the
  \<^verbatim>\<open>AbortError\<close>; the run settles only reachable controllers, forgets no settled promise
  and leaves a transfer armed or settled.
\<close>

definition armed :: "upload list \<Rightarrow> nat \<Rightarrow> bool" where
  "armed us k =
     (k < length us \<and> \<not> aborted (us ! k) \<and> promise (call (us ! k)) = None \<and>
      listening (call (us ! k)) \<and> timer (call (us ! k)) \<noteq> Uninitialised)"

definition rejectedJobs :: "upload list \<times> nat list \<Rightarrow> bool" where
  "rejectedJobs h =
     (\<forall>k \<in> set (snd h). k < length (fst h) \<and>
        promise (call (fst h ! k)) = Some (Rejected (DOMException ''Aborted'' ''AbortError'')))"

definition settles :: "nat set \<Rightarrow> upload list \<times> nat list \<Rightarrow> upload list \<times> nat list \<Rightarrow> bool" where
  "settles K h h' =
     (set (snd h) \<subseteq> set (snd h') \<and> set (snd h') \<subseteq> set (snd h) \<union> K \<and>
      (rejectedJobs h \<longrightarrow> rejectedJobs h') \<and>
      (\<forall>k. k \<in> set (snd h) \<or> armed (fst h) k \<longrightarrow> k \<in> set (snd h') \<or> armed (fst h') k))"

subsection \<open>Example data\<close>

definition png :: "string \<Rightarrow> File" where
  "png n = \<lparr>file_name = n, file_size = 100, file_type = ''image/png'', lastModified = 0\<rparr>"

definition queuedItem :: "string \<Rightarrow> Item" where
  "queuedItem n =
     \<lparr>item_id = n, item_file = png n, previewUrl = n, progress = 0, status = Queued,
      error = None, serverUrl = None, abortCtrl = None\<rparr>"

text \<open>Four files were enqueued and nothing has started.\<close>

definition fourQueued :: queue where
  "fourQueued = \<lparr>items = map queuedItem [''a'', ''b'', ''c'', ''d''], running = 0, uploads = []\<rparr>"

text \<open>
  \<^verbatim>\<open>pump\<close> has admitted the first three; then the transfer of \<open>a\<close> fails; then the
  transfer of \<open>b\<close> succeeds.
\<close>

definition threeUploading :: queue where
  "threeUploading = pump fourQueued"

definition oneFailed :: queue where
  "oneFailed = Tick 0 100 True True ''blob:a'' threeUploading"

definition oneDone :: queue where
  "oneDone = Tick 1 100 True False ''blob:b'' oneFailed"

text \<open>The same states as a run of events from the empty queue.\<close>

definition exampleIds :: "nat \<Rightarrow> string" where
  "exampleIds n = [''a'', ''b'', ''c'', ''d''] ! n"

definition exampleEvents :: "event list" where
  "exampleEvents =
     [PushFiles exampleIds exampleIds (map png [''a'', ''b'', ''c'', ''d'']), Pump,
      Timer 0 100 True True ''blob:a'', Timer 1 100 True False ''blob:b'']"

text \<open>
  Nine more files: a duplicate of \<open>a\<close>, a file of a type that is not accepted, and seven
  new images.
\<close>

definition moreFiles :: "File list" where
  "moreFiles =
     [png ''a'', (png ''x'')\<lparr>file_type := ''image/gif''\<rparr>, png ''e'', png ''f'', png ''g'',
      png ''h'', png ''i'', png ''j'', png ''k'']"

text \<open>
  Nine files of which the first six equal files of the four items of \<open>fourQueued\<close>; the
  three new images come behind the cap.
\<close>

definition crowdedFiles :: "File list" where
  "crowdedFiles =
     [png ''a'', png ''b'', png ''c'', png ''d'', png ''a'', png ''b'', png ''e'', png ''f'',
      png ''g'']"

text \<open>
  Events after the cancellation of \<open>d\<close> in \<open>threeUploading\<close>: the transfer of \<open>a\<close>
  reports progress and succeeds, \<^verbatim>\<open>pump\<close> runs twice, and \<open>b\<close> is canceled.
\<close>

definition quietEvents :: "event list" where
  "quietEvents =
     [Pump, Timer 0 50 False False ''blob:a'', Timer 0 100 True False ''blob:a'', Pump,
      CancelItem ''b'']"

section \<open>The admission loop\<close>

lemma pump_loop_length: "length (fst (pump_loop av its st)) = length its"
  by (induction av its st rule: pump_loop.induct) (auto split: prod.splits)

lemma pump_loop_no_queued:
  "\<forall>it \<in> set its. status it \<noteq> Queued \<Longrightarrow> pump_loop av its st = (its, st)"
  by (induction av its st rule: pump_loop.induct) (auto split: prod.splits)

lemma pump_loop_counts:
  "pump_loop av its (st, r, us) = (its', st', r', us') \<Longrightarrow>
     st \<le> st' \<and> r' - r = st' - st \<and> int (length us') = int (length us) + (st' - st)
     \<and> (st \<le> av \<longrightarrow> st' \<le> av)
     \<and> (st' < av \<longrightarrow> (\<forall>it \<in> set its'. status it \<noteq> Queued))"
proof (induction av its "(st, r, us)" arbitrary: st r us its' st' r' us' rule: pump_loop.induct)
  case (1 available)
  then show ?case by simp
next
  case (2 available it rest started run us)
  show ?case
  proof (cases "started < available")
    case False
    with 2(3) show ?thesis by auto
  next
    case lt: True
    show ?thesis
    proof (cases "status it = Queued")
      case True
      obtain rest' where r: "pump_loop available rest (started + 1, run + 1, us @ [\<lparr>forId = item_id it, aborted = False, call = mockUpload (Some False)\<rparr>]) = (rest', st', r', us')"
        and i: "its' = it\<lparr>abortCtrl := Some (length us), status := Uploading\<rparr> # rest'"
        using 2(3) lt True by (auto split: prod.splits)
      from 2(1)[OF lt True refl refl refl r] lt i show ?thesis by auto
    next
      case False
      obtain rest' where r: "pump_loop available rest (started, run, us) = (rest', st', r', us')"
        and i: "its' = it # rest'"
        using 2(3) lt False by (auto split: prod.splits)
      from 2(2)[OF lt False r] lt i False show ?thesis by auto
    qed
  qed
qed

lemma pump_loop_fifo:
  "pump_loop av its st = (its', st') \<Longrightarrow> i < j \<Longrightarrow> j < length its \<Longrightarrow>
   status (its ! i) = Queued \<Longrightarrow> status (its ! j) = Queued \<Longrightarrow>
   status (its' ! j) = Uploading \<Longrightarrow> status (its' ! i) = Uploading"
proof (induction av its st arbitrary: i j its' st' rule: pump_loop.induct)
  case (1 available st)
  then show ?case by simp
next
  case (2 available it rest started run us)
  from 2(4) obtain j' where j: "j = Suc j'" by (cases j) auto
  show ?case
  proof (cases "started < available")
    case False
    with 2(3) have "its' = it # rest" by simp
    with 2(7,8) show ?thesis by simp
  next
    case lt: True
    show ?thesis
    proof (cases "status it = Queued")
      case True
      obtain rest' where r: "pump_loop available rest (started + 1, run + 1, us @ [\<lparr>forId = item_id it, aborted = False, call = mockUpload (Some False)\<rparr>]) = (rest', st')"
        and i: "its' = it\<lparr>abortCtrl := Some (length us), status := Uploading\<rparr> # rest'"
        using 2(3) lt True by (auto split: prod.splits)
      show ?thesis
      proof (cases i)
        case 0
        with i show ?thesis by simp
      next
        case (Suc i')
        from 2(1)[OF lt True refl refl refl r, of i' j'] 2(4-8) i j Suc show ?thesis by simp
      qed
    next
      case False
      obtain rest' where r: "pump_loop available rest (started, run, us) = (rest', st')"
        and i: "its' = it # rest'"
        using 2(3) lt False by (auto split: prod.splits)
      show ?thesis
      proof (cases i)
        case 0
        with 2(6) False show ?thesis by simp
      next
        case (Suc i')
        from 2(2)[OF lt False r, of i' j'] 2(4-8) i j Suc show ?thesis by simp
      qed
    qed
  qed
qed

lemma pump_loop_admits:
  "pump_loop av its (st, r, us) = (its', st') \<Longrightarrow> i < length its \<Longrightarrow>
   status (its ! i) = Queued \<Longrightarrow> st + int (queued_before i its) < av \<Longrightarrow>
   status (its' ! i) = Uploading"
proof (induction av its "(st, r, us)" arbitrary: i its' st' st r us rule: pump_loop.induct)
  case (1 available)
  then show ?case by simp
next
  case (2 available it rest started run us)
  have lt: "started < available" using 2(6) by linarith
  show ?case
  proof (cases "status it = Queued")
    case True
    obtain rest' where r: "pump_loop available rest (started + 1, run + 1, us @ [\<lparr>forId = item_id it, aborted = False, call = mockUpload (Some False)\<rparr>]) = (rest', st')"
      and i: "its' = it\<lparr>abortCtrl := Some (length us), status := Uploading\<rparr> # rest'"
      using 2(3) lt True by (auto split: prod.splits)
    show ?thesis
    proof (cases i)
      case 0
      with i show ?thesis by simp
    next
      case (Suc i')
      from 2(1)[OF lt True refl refl refl r, of i'] 2(4-6) i Suc True show ?thesis
        by (simp add: queued_before_def)
    qed
  next
    case False
    obtain rest' where r: "pump_loop available rest (started, run, us) = (rest', st')"
      and i: "its' = it # rest'"
      using 2(3) lt False by (auto split: prod.splits)
    show ?thesis
    proof (cases i)
      case 0
      with 2(5) False show ?thesis by simp
    next
      case (Suc i')
      from 2(2)[OF lt False r, of i'] 2(4-6) i Suc False show ?thesis
        by (simp add: queued_before_def)
    qed
  qed
qed

lemma pump_loop_keeps:
  "pump_loop av its st = (its', st') \<Longrightarrow> i < length its \<Longrightarrow> status (its ! i) \<noteq> Queued \<Longrightarrow>
   its' ! i = its ! i"
proof (induction av its st arbitrary: i its' st' rule: pump_loop.induct)
  case (1 available st)
  then show ?case by simp
next
  case (2 available it rest started run us)
  show ?case
  proof (cases "started < available")
    case False
    with 2(3) show ?thesis by simp
  next
    case lt: True
    show ?thesis
    proof (cases "status it = Queued")
      case True
      obtain rest' where r: "pump_loop available rest (started + 1, run + 1, us @ [\<lparr>forId = item_id it, aborted = False, call = mockUpload (Some False)\<rparr>]) = (rest', st')"
        and i: "its' = it\<lparr>abortCtrl := Some (length us), status := Uploading\<rparr> # rest'"
        using 2(3) lt True by (auto split: prod.splits)
      show ?thesis
      proof (cases i)
        case 0
        with 2(5) True show ?thesis by simp
      next
        case (Suc i')
        from 2(1)[OF lt True refl refl refl r, of i'] 2(4,5) i Suc show ?thesis by simp
      qed
    next
      case False
      obtain rest' where r: "pump_loop available rest (started, run, us) = (rest', st')"
        and i: "its' = it # rest'"
        using 2(3) lt False by (auto split: prod.splits)
      show ?thesis
      proof (cases i)
        case 0
        with i show ?thesis by simp
      next
        case (Suc i')
        from 2(2)[OF lt False r, of i'] 2(4,5) i Suc show ?thesis by simp
      qed
    qed
  qed
qed

section \<open>The wiring of items and transfers\<close>

subsection \<open>Counting\<close>

lemma wired_count:
  assumes "wired its us"
  shows "length (filter (\<lambda>it. status it = Uploading) its) \<le> length (filter pending us)"
proof -
  let ?ups = "filter (\<lambda>it. status it = Uploading) its"
  have d: "distinct (map abortCtrl ?ups)"
    using assms by (simp add: wired_def ctrls_def)
  have sub: "set (map abortCtrl ?ups) \<subseteq> Some ` {k. k < length us \<and> pending (us ! k)}"
    using assms by (auto simp: wired_def linked_def split: option.splits)
  have "card (set (map abortCtrl ?ups)) = length (map abortCtrl ?ups)"
    using d by (rule distinct_card)
  then have "length ?ups = card (set (map abortCtrl ?ups))"
    by simp
  also have "\<dots> \<le> card (Some ` {k. k < length us \<and> pending (us ! k)})"
    by (rule card_mono[OF _ sub]) simp
  also have "\<dots> = card {k. k < length us \<and> pending (us ! k)}"
    by (simp add: card_image)
  also have "\<dots> = length (filter pending us)"
    by (simp add: length_filter_conv_card)
  finally show ?thesis .
qed

subsection \<open>Updates of the items that start nothing\<close>

lemma distinct_map_filter_sub:
  "distinct (map g (filter P xs)) \<Longrightarrow> (\<And>x. Q x \<Longrightarrow> P x) \<Longrightarrow> distinct (map g (filter Q xs))"
  by (induction xs) (auto split: if_splits)

lemma wired_map:
  assumes w: "wired its us"
    and f: "\<And>x. abortCtrl (f x) = abortCtrl x" "\<And>x. item_id (f x) = item_id x"
           "\<And>x. status (f x) = Uploading \<Longrightarrow> status x = Uploading"
  shows "wired (map f its) us"
proof -
  have "ctrls (map f its) = map abortCtrl (filter (\<lambda>x. status (f x) = Uploading) its)"
    by (simp add: ctrls_def filter_map o_def f)
  moreover have "distinct (map abortCtrl (filter (\<lambda>x. status (f x) = Uploading) its))"
    by (rule distinct_map_filter_sub[where P = "\<lambda>x. status x = Uploading"])
       (use w f(3) in \<open>auto simp: wired_def ctrls_def\<close>)
  ultimately have "distinct (ctrls (map f its))"
    by simp
  moreover have "linked us (f x) = linked us x" for x
    by (simp add: linked_def f split: option.splits)
  then have "\<forall>it \<in> set (map f its). status it = Uploading \<longrightarrow> linked us it"
    using w f(3) by (auto simp: wired_def)
  ultimately show ?thesis by (simp add: wired_def)
qed

lemma wired_filter:
  assumes w: "wired its us"
  shows "wired (filter R its) us"
proof -
  have "ctrls (filter R its) = map abortCtrl (filter (\<lambda>x. R x \<and> status x = Uploading) its)"
    by (simp add: ctrls_def)
  moreover have "distinct (map abortCtrl (filter (\<lambda>x. R x \<and> status x = Uploading) its))"
    by (rule distinct_map_filter_sub[where P = "\<lambda>x. status x = Uploading"])
       (use w in \<open>auto simp: wired_def ctrls_def\<close>)
  ultimately have "distinct (ctrls (filter R its))"
    by simp
  then show ?thesis using w by (auto simp: wired_def)
qed

lemma wired_append_idle:
  assumes w: "wired its us" and q: "\<forall>it \<in> set new. status it \<noteq> Uploading"
  shows "wired (its @ new) us"
proof -
  have "filter (\<lambda>x. status x = Uploading) new = []" using q by (simp add: filter_empty_conv)
  then show ?thesis using w q by (auto simp: wired_def ctrls_def)
qed

text \<open>The store changes at positions that no remaining uploading item is linked to.\<close>

lemma wired_store:
  assumes w: "wired its us"
    and len: "length us' = length us"
    and same: "\<And>it k. it \<in> set its \<Longrightarrow> status it = Uploading \<Longrightarrow> abortCtrl it = Some k \<Longrightarrow>
               k < length us \<Longrightarrow> pending (us' ! k) \<and> forId (us' ! k) = forId (us ! k)"
  shows "wired its us'"
  using w len same unfolding wired_def linked_def
  by (auto split: option.splits)

subsection \<open>Aborting\<close>

lemma filter_update_count:
  "k < length xs \<Longrightarrow>
   int (length (filter P (xs[k := y]))) =
   int (length (filter P xs)) - of_bool (P (xs ! k)) + of_bool (P y)"
proof (induction xs arbitrary: k)
  case Nil
  then show ?case by simp
next
  case (Cons x xs)
  then show ?case by (cases k) auto
qed

lemma settle_keeps: "promise m = Some v \<Longrightarrow> promise (settle w m) = Some v"
  by (simp add: settle_def)

lemma dispatchAbort_keeps: "promise m = Some v \<Longrightarrow> promise (dispatchAbort m) = Some v"
  by (simp add: dispatchAbort_def onAbort_def Let_def settle_def)

lemma evolves_refl: "evolves K h h"
  by (simp add: evolves_def)

lemma evolves_trans:
  "evolves K h h' \<Longrightarrow> evolves K' h' h'' \<Longrightarrow> evolves (K \<union> K') h h''"
  unfolding evolves_def by auto

lemma evolves_mono: "evolves K h h' \<Longrightarrow> K \<subseteq> K' \<Longrightarrow> evolves K' h h'"
  unfolding evolves_def by auto

lemma abort_evolves: "evolves {k} h (abort k h)"
proof (cases "k < length (fst h) \<and> \<not> aborted (fst h ! k)")
  case False
  then have "abort k h = h" by (auto simp: abort_def Let_def)
  then show ?thesis by (simp add: evolves_refl)
next
  case True
  define us where "us = fst h"
  define jobs where "jobs = snd h"
  define c where "c = dispatchAbort (call (us ! k))"
  define u' where "u' = (us ! k)\<lparr>aborted := True, call := c\<rparr>"
  define jobs' where "jobs' = (if promise (call (us ! k)) = None \<and> promise c \<noteq> None then jobs @ [k] else jobs)"
  have a: "abort k h = (us[k := u'], jobs')"
    using True by (simp add: abort_def Let_def us_def jobs_def c_def u'_def jobs'_def)
  have k: "k < length us" using True by (simp add: us_def)
  have keep: "promise c = Some v" if "promise (call (us ! k)) = Some v" for v
    using that by (simp add: c_def dispatchAbort_keeps)
  have mono: "pending u' \<Longrightarrow> pending (us ! k)"
    using keep by (cases "promise (call (us ! k))") (auto simp: pending_def u'_def)
  have cnt: "int (length (filter pending (us[k := u']))) + int (length jobs') =
             int (length (filter pending us)) + int (length jobs)"
  proof (cases "promise (call (us ! k))")
    case None
    then show ?thesis
      by (cases "promise c") (simp_all add: filter_update_count[OF k] jobs'_def pending_def u'_def)
  next
    case (Some v)
    with keep[OF Some] show ?thesis
      by (simp add: filter_update_count[OF k] jobs'_def pending_def u'_def)
  qed
  have pu: "pending u' \<longleftrightarrow> promise c = None"
    by (simp add: pending_def u'_def)
  have set: "\<forall>j \<in> set jobs'. j < length us \<and> \<not> pending (us[k := u'] ! j)"
    if "\<forall>j \<in> set jobs. j < length us \<and> \<not> pending (us ! j)"
    using that k mono pu by (auto simp: jobs'_def nth_list_update)
  have "acct (us[k := u']) jobs' r" if "acct us jobs r" for r
    using that cnt set by (simp add: acct_def)
  moreover have "\<forall>j < length us. forId (us[k := u'] ! j) = forId (us ! j) \<and>
         (pending (us[k := u'] ! j) \<longrightarrow> pending (us ! j)) \<and>
         (j \<notin> {k} \<longrightarrow> us[k := u'] ! j = us ! j)"
  proof (intro allI impI)
    fix j assume "j < length us"
    have "forId u' = forId (us ! k)" by (simp add: u'_def)
    with mono k show "forId (us[k := u'] ! j) = forId (us ! j) \<and>
         (pending (us[k := u'] ! j) \<longrightarrow> pending (us ! j)) \<and>
         (j \<notin> {k} \<longrightarrow> us[k := u'] ! j = us ! j)"
      by (cases "j = k") simp_all
  qed
  ultimately show ?thesis
    unfolding evolves_def a by (simp add: us_def[symmetric] jobs_def[symmetric])
qed

lemma abortIfUploading_evolves: "evolves (targets [it]) h (abortIfUploading it h)"
proof (cases "status it = Uploading")
  case False
  then show ?thesis by (simp add: abortIfUploading_def evolves_refl)
next
  case True
  show ?thesis
  proof (cases "abortCtrl it")
    case None
    with True show ?thesis by (simp add: abortIfUploading_def evolves_refl)
  next
    case (Some k)
    with True have "targets [it] = {k}" by (auto simp: targets_def)
    with True Some show ?thesis by (simp add: abortIfUploading_def abort_evolves)
  qed
qed

lemma targets_Cons: "targets (it # its) = targets [it] \<union> targets its"
  by (auto simp: targets_def)




lemma cancelItem_map_Cons:
  "cancelItem_map i (it # rest) h =
     (if item_id it \<noteq> i
      then (it # fst (cancelItem_map i rest h), snd (cancelItem_map i rest h))
      else (it\<lparr>status := Canceled\<rparr> # fst (cancelItem_map i rest (abortIfUploading it h)),
            snd (cancelItem_map i rest (abortIfUploading it h))))"
  by (simp add: Let_def split: prod.splits)

lemma cancelItem_map_items:
  "fst (cancelItem_map i its h) =
   map (\<lambda>it. if item_id it = i then it\<lparr>status := Canceled\<rparr> else it) its"
proof (induction its arbitrary: h)
  case Nil
  show ?case by simp
next
  case (Cons it rest)
  show ?case
    unfolding cancelItem_map_Cons by (simp add: Cons)
qed

lemma cancelItem_map_evolves:
  "evolves (targets (filter (\<lambda>it. item_id it = i) its)) h (snd (cancelItem_map i its h))"
proof (induction its arbitrary: h)
  case Nil
  then show ?case by (simp add: evolves_refl)
next
  case (Cons it rest)
  show ?case
  proof (cases "item_id it = i")
    case False
    with Cons show ?thesis unfolding cancelItem_map_Cons by simp
  next
    case True
    have "evolves (targets [it] \<union> targets (filter (\<lambda>it. item_id it = i) rest)) h
            (snd (cancelItem_map i rest (abortIfUploading it h)))"
      using abortIfUploading_evolves Cons by (rule evolves_trans)
    with True show ?thesis
      unfolding cancelItem_map_Cons
      by (simp add: targets_Cons[of it "filter (\<lambda>it. item_id it = i) rest"])
  qed
qed

lemma cancelAll_map_Cons:
  "cancelAll_map (it # rest) h =
     (it\<lparr>status := (if status it = Success then status it else Canceled)\<rparr> #
        fst (cancelAll_map rest (abortIfUploading it h)),
      snd (cancelAll_map rest (abortIfUploading it h)))"
  by (simp add: Let_def split: prod.splits)

lemma cancelAll_map_items:
  "fst (cancelAll_map its h) =
   map (\<lambda>it. it\<lparr>status := (if status it = Success then status it else Canceled)\<rparr>) its"
proof (induction its arbitrary: h)
  case Nil
  show ?case by simp
next
  case (Cons it rest)
  show ?case
    unfolding cancelAll_map_Cons by (simp add: Cons)
qed

lemma cancelAll_map_evolves: "evolves (targets its) h (snd (cancelAll_map its h))"
proof (induction its arbitrary: h)
  case Nil
  then show ?case by (simp add: evolves_refl)
next
  case (Cons it rest)
  have "evolves (targets [it] \<union> targets rest) h (snd (cancelAll_map rest (abortIfUploading it h)))"
    using abortIfUploading_evolves Cons by (rule evolves_trans)
  then show ?case
    unfolding cancelAll_map_Cons by (simp add: targets_Cons[of it rest])
qed




lemma mockUpload_fresh [simp]: "promise (mockUpload (Some False)) = None"
  by (simp add: mockUpload_def)

lemma linked_append: "linked us it \<Longrightarrow> linked (us @ new) it"
  by (auto simp: linked_def nth_append split: option.splits)

lemma pump_loop_store:
  "pump_loop av its (st, r, us) = (its', st', r', us') \<Longrightarrow>
   \<exists>new. us' = us @ new \<and> (\<forall>u \<in> set new. pending u) \<and> int (length new) = st' - st"
proof (induction av its "(st, r, us)" arbitrary: st r us its' st' r' us' rule: pump_loop.induct)
  case (1 available)
  then show ?case by simp
next
  case (2 available it rest started run us)
  show ?case
  proof (cases "started < available")
    case False
    with 2(3) show ?thesis by auto
  next
    case lt: True
    show ?thesis
    proof (cases "status it = Queued")
      case True
      let ?u = "\<lparr>forId = item_id it, aborted = False, call = mockUpload (Some False)\<rparr>"
      obtain rest' where r: "pump_loop available rest (started + 1, run + 1, us @ [?u]) = (rest', st', r', us')"
        using 2(3) lt True by (auto split: prod.splits)
      from 2(1)[OF lt True refl refl refl r] obtain new where
        n: "us' = (us @ [?u]) @ new" "\<forall>u \<in> set new. pending u" "int (length new) = st' - (started + 1)"
        by blast
      have "us' = us @ (?u # new) \<and> (\<forall>u \<in> set (?u # new). pending u) \<and>
            int (length (?u # new)) = st' - started"
        using n by (simp add: pending_def)
      then show ?thesis by blast
    next
      case False
      obtain rest' where r: "pump_loop available rest (started, run, us) = (rest', st', r', us')"
        using 2(3) lt False by (auto split: prod.splits)
      from 2(2)[OF lt False r] show ?thesis .
    qed
  qed
qed

lemma pump_loop_wired:
  "pump_loop av its (st, r, us) = (its', st', r', us') \<Longrightarrow>
   distinct (ctrls its) \<Longrightarrow> (\<forall>it \<in> set its. status it = Uploading \<longrightarrow> linked us it) \<Longrightarrow>
   distinct (ctrls its') \<and> (\<forall>it \<in> set its'. status it = Uploading \<longrightarrow> linked us' it) \<and>
   set (ctrls its') \<subseteq> set (ctrls its) \<union> Some ` {length us ..< length us'}"
proof (induction av its "(st, r, us)" arbitrary: st r us its' st' r' us' rule: pump_loop.induct)
  case (1 available)
  then show ?case by simp
next
  case (2 available it rest started run us)
  have d_rest: "distinct (ctrls rest)"
    using 2(4) by (auto simp: ctrls_def split: if_splits)
  show ?case
  proof (cases "started < available")
    case False
    with 2(3,4,5) show ?thesis by auto
  next
    case lt: True
    show ?thesis
    proof (cases "status it = Queued")
      case True
      let ?u = "\<lparr>forId = item_id it, aborted = False, call = mockUpload (Some False)\<rparr>"
      let ?it' = "it\<lparr>abortCtrl := Some (length us), status := Uploading\<rparr>"
      obtain rest' where r: "pump_loop available rest (started + 1, run + 1, us @ [?u]) = (rest', st', r', us')"
        and i: "its' = ?it' # rest'"
        using 2(3) lt True by (auto split: prod.splits)
      have l_rest: "\<forall>x \<in> set rest. status x = Uploading \<longrightarrow> linked (us @ [?u]) x"
        using 2(5) by (auto intro: linked_append)
      from 2(1)[OF lt True refl refl refl r d_rest l_rest]
      have ih: "distinct (ctrls rest')" "\<forall>x \<in> set rest'. status x = Uploading \<longrightarrow> linked us' x"
        "set (ctrls rest') \<subseteq> set (ctrls rest) \<union> Some ` {length (us @ [?u]) ..< length us'}"
        by auto
      from pump_loop_store[OF r] obtain new where n: "us' = (us @ [?u]) @ new" by blast
      have old: "Some (length us) \<notin> set (ctrls rest)"
        using 2(5) by (auto simp: ctrls_def linked_def split: option.splits)
      have fresh: "Some (length us) \<notin> set (ctrls rest')"
        using ih(3) old by auto
      have lk: "linked us' ?it'"
        using n by (simp add: linked_def pending_def nth_append)
      have c: "ctrls its' = Some (length us) # ctrls rest'"
        using i by (simp add: ctrls_def)
      have "set (ctrls its') \<subseteq> set (ctrls (it # rest)) \<union> Some ` {length us ..< length us'}"
        using ih(3) n True unfolding c by (auto simp: ctrls_def)
      with c fresh ih lk i show ?thesis by simp
    next
      case False
      obtain rest' where r: "pump_loop available rest (started, run, us) = (rest', st', r', us')"
        and i: "its' = it # rest'"
        using 2(3) lt False by (auto split: prod.splits)
      have l_rest: "\<forall>x \<in> set rest. status x = Uploading \<longrightarrow> linked us x"
        using 2(5) by auto
      from 2(2)[OF lt False r d_rest l_rest]
      have ih: "distinct (ctrls rest')" "\<forall>x \<in> set rest'. status x = Uploading \<longrightarrow> linked us' x"
        "set (ctrls rest') \<subseteq> set (ctrls rest) \<union> Some ` {length us ..< length us'}"
        by auto
      from pump_loop_store[OF r] obtain new where n: "us' = us @ new" by blast
      show ?thesis
      proof (cases "status it = Uploading")
        case nu: False
        then have "ctrls its' = ctrls rest'" "ctrls (it # rest) = ctrls rest"
          using i by (simp_all add: ctrls_def)
        with ih i nu show ?thesis by simp
      next
        case up: True
        then have c: "ctrls its' = abortCtrl it # ctrls rest'" "ctrls (it # rest) = abortCtrl it # ctrls rest"
          using i by (simp_all add: ctrls_def)
        have lit: "linked us it" using 2(5) up by simp
        then obtain k where k: "abortCtrl it = Some k" "k < length us"
          by (auto simp: linked_def split: option.splits)
        have "abortCtrl it \<notin> set (ctrls rest)" using 2(4) c by simp
        with ih(3) k have fresh: "abortCtrl it \<notin> set (ctrls rest')" by auto
        have "linked us' it" using lit n by (simp add: linked_append)
        moreover have "set (ctrls its') \<subseteq> set (ctrls (it # rest)) \<union> Some ` {length us ..< length us'}"
          using ih(3) unfolding c by auto
        ultimately show ?thesis using c fresh ih i by simp
      qed
    qed
  qed
qed




subsection \<open>Every event keeps the invariant\<close>

lemma inv_init: "inv init"
  by (simp add: inv_def init_def wired_def ctrls_def CONCURRENCY_def)

lemma inv_items:
  assumes "inv s" and "wired its (uploads s)"
  shows "inv (s\<lparr>items := its\<rparr>)"
  using assms by (simp add: inv_def)

lemma inv_pump: assumes "inv s" shows "inv (pump s)"
proof (cases "running s \<ge> CONCURRENCY")
  case True
  with assms show ?thesis by (simp add: pump_def)
next
  case False
  obtain its' st' r' us' where pl:
    "pump_loop (CONCURRENCY - running s) (items s) (0, running s, uploads s) = (its', st', r', us')"
    by (metis prod_cases4)
  have ps: "pump s = s\<lparr>items := its', running := r', uploads := us'\<rparr>"
    using False pl by (simp add: pump_def)
  from pump_loop_counts[OF pl] False
  have c: "r' = running s + st'" "st' \<le> CONCURRENCY - running s" by auto
  from pump_loop_store[OF pl] obtain new where
    n: "us' = uploads s @ new" "\<forall>u \<in> set new. pending u" "int (length new) = st'"
    by auto
  have "filter pending new = new" using n(2) by (simp add: filter_id_conv)
  then have cnt: "int (length (filter pending us')) = int (length (filter pending (uploads s))) + st'"
    using n by simp
  have w: "wired its' us'"
    using pump_loop_wired[OF pl] assms by (simp add: inv_def wired_def)
  show ?thesis
    unfolding ps using w cnt c assms by (simp add: inv_def)
qed

lemma inv_retryItem: "inv s \<Longrightarrow> inv (retryItem i s)"
  unfolding retryItem_def by (rule inv_items, assumption, rule wired_map) (auto simp: inv_def split: if_splits)

lemma inv_startAll: "inv s \<Longrightarrow> inv (startAll s)"
  unfolding startAll_def by (rule inv_items, assumption, rule wired_map) (auto simp: inv_def split: if_splits)

lemma inv_removeItem: "inv s \<Longrightarrow> inv (removeItem i s)"
  unfolding removeItem_def by (rule inv_items, assumption, rule wired_filter) (simp add: inv_def)

lemma validate_each_new:
  "validate_each v uid url fs (toAdd, errs) = Inr (a, e) \<Longrightarrow>
   \<exists>new. a = toAdd @ new \<and>
     (\<forall>it \<in> set new. status it = Queued \<and> item_id it \<in> uid ` {..<length toAdd + length fs})"
proof (induction fs arbitrary: toAdd errs)
  case Nil
  then show ?case by simp
next
  case (Cons f fs)
  show ?case
  proof (cases "v f")
    case (Inl thrown)
    with Cons(2) show ?thesis by simp
  next
    case (Inr r)
    show ?thesis
    proof (cases r)
      case (Some err)
      with Inr Cons(2) have "validate_each v uid url fs (toAdd, errs @ [(file_name f, err)]) = Inr (a, e)"
        by simp
      from Cons(1)[OF this] obtain new where
        n: "a = toAdd @ new"
           "\<forall>it \<in> set new. status it = Queued \<and> item_id it \<in> uid ` {..<length toAdd + length fs}"
        by blast
      have "uid ` {..<length toAdd + length fs} \<subseteq> uid ` {..<length toAdd + length (f # fs)}"
        by (intro image_mono) simp
      with n show ?thesis by blast
    next
      case None
      let ?it = "\<lparr>item_id = uid (length toAdd), item_file = f, previewUrl = url (length toAdd),
                  progress = 0, status = Queued, error = None, serverUrl = None, abortCtrl = None\<rparr>"
      from None Inr Cons(2) have "validate_each v uid url fs (toAdd @ [?it], errs) = Inr (a, e)"
        by simp
      from Cons(1)[OF this] obtain new where
        n: "a = (toAdd @ [?it]) @ new"
           "\<forall>it \<in> set new. status it = Queued \<and> item_id it \<in> uid ` {..<length (toAdd @ [?it]) + length fs}"
        by blast
      have "length (toAdd @ [?it]) + length fs = length toAdd + length (f # fs)"
        by simp
      with n(2) have
        "\<forall>it \<in> set new. status it = Queued \<and> item_id it \<in> uid ` {..<length toAdd + length (f # fs)}"
        by metis
      moreover have "item_id ?it \<in> uid ` {..<length toAdd + length (f # fs)}"
        by simp
      ultimately have "a = toAdd @ (?it # new) \<and>
            (\<forall>it \<in> set (?it # new). status it = Queued \<and>
               item_id it \<in> uid ` {..<length toAdd + length (f # fs)})"
        using n(1) by simp
      then show ?thesis by blast
    qed
  qed
qed

lemma pushFilesWith_items:
  assumes "pushFilesWith v uid url arr prev = Inr (next, errors)"
  shows "\<exists>new. next = prev @ new \<and>
           (\<forall>it \<in> set new. status it = Queued \<and> item_id it \<in> uid ` {..<length arr})"
proof -
  let ?d = "filter (\<lambda>f. \<not> list_ex (\<lambda>x. isDuplicate f (item_file x)) prev)
              (take (nat (max 0 (int MAX_FILES - int (length prev)))) arr)"
  from assms obtain toAdd where
    v: "validate_each v uid url ?d ([], []) = Inr (toAdd, errors)" and n: "next = prev @ toAdd"
    by (auto simp: pushFilesWith_def Let_def split: sum.splits)
  from validate_each_new[OF v] have
    "\<forall>it \<in> set toAdd. status it = Queued \<and> item_id it \<in> uid ` {..<length ?d}" by auto
  moreover have "length ?d \<le> length arr"
    by (rule order_trans[OF length_filter_le]) simp
  ultimately have "\<forall>it \<in> set toAdd. status it = Queued \<and> item_id it \<in> uid ` {..<length arr}"
    by fastforce
  with n show ?thesis by blast
qed

lemma enqueue_items:
  "\<exists>new. items (enqueue v uid url arr s) = items s @ new \<and>
     (\<forall>it \<in> set new. status it = Queued \<and> item_id it \<in> uid ` {..<length arr})"
proof (cases "pushFilesWith v uid url arr (items s)")
  case (Inl thrown)
  then have "items (enqueue v uid url arr s) = items s @ []" by (simp add: enqueue_def)
  then show ?thesis by (intro exI[of _ "[]"]) simp
next
  case (Inr r)
  obtain "next" errors where r: "r = (next, errors)" by (cases r) auto
  from pushFilesWith_items[OF Inr[unfolded r]] Inr r show ?thesis
    by (simp add: enqueue_def)
qed

lemma enqueue_rest [simp]:
  "uploads (enqueue v uid url arr s) = uploads s" "running (enqueue v uid url arr s) = running s"
  by (simp_all add: enqueue_def split: sum.splits prod.splits)

lemma inv_enqueue: assumes "inv s" shows "inv (enqueue v uid url arr s)"
proof -
  from enqueue_items obtain new where
    n: "items (enqueue v uid url arr s) = items s @ new" "\<forall>it \<in> set new. status it = Queued"
    by blast
  have "wired (items s @ new) (uploads s)"
    by (rule wired_append_idle) (use assms n(2) in \<open>auto simp: inv_def\<close>)
  with assms n(1) show ?thesis by (simp add: inv_def)
qed




lemma wired_onProgress: "wired its us \<Longrightarrow> wired (onProgress i p its) us"
  unfolding onProgress_def by (rule wired_map) (auto split: if_splits)

lemma wired_onFulfilled: "wired its us \<Longrightarrow> wired (onFulfilled i url its) us"
  unfolding onFulfilled_def by (rule wired_map) (auto split: if_splits)

lemma wired_onRejected: "wired its us \<Longrightarrow> wired (onRejected i e its) us"
  unfolding onRejected_def by (rule wired_map) (auto split: if_splits)

lemma wired_progress_calls:
  "wired its us \<Longrightarrow> wired (foldl (\<lambda>cur p. onProgress i p cur) its calls) us"
  by (induction calls arbitrary: its) (simp_all add: wired_onProgress)

text \<open>What the reactions of a settled transfer do.\<close>

lemma react_settled:
  assumes "k < length (uploads s)" and "\<not> pending (uploads s ! k)"
  shows "uploads (react k s) = uploads s"
    and "running (react k s) = running s - 1"
    and "wired (items s) us \<Longrightarrow> wired (items (react k s)) us"
proof -
  from assms(2) obtain v where v: "promise (call (uploads s ! k)) = Some v"
    by (auto simp: pending_def)
  show "uploads (react k s) = uploads s" "running (react k s) = running s - 1"
    using assms(1) v by (cases v; simp add: react_def)+
  show "wired (items (react k s)) us" if "wired (items s) us"
    using assms(1) v that
    by (cases v) (simp_all add: react_def wired_onFulfilled wired_onRejected)
qed

lemma drain_acct:
  "acct (uploads s) jobs (running s) \<Longrightarrow> wired (items s) us \<Longrightarrow>
   uploads (drain jobs s) = uploads s \<and>
   running (drain jobs s) = int (length (filter pending (uploads s))) \<and>
   wired (items (drain jobs s)) us"
proof (induction jobs arbitrary: s)
  case Nil
  then show ?case by (simp add: drain_def acct_def)
next
  case (Cons k jobs)
  from Cons(2) have k: "k < length (uploads s)" "\<not> pending (uploads s ! k)"
    by (simp_all add: acct_def)
  note r = react_settled[OF k]
  have "acct (uploads (react k s)) jobs (running (react k s))"
    using Cons(2) r(1,2) by (simp add: acct_def)
  from Cons(1)[OF this r(3)[OF Cons(3)]] r(1) show ?case
    by (simp add: drain_def)
qed

lemma inv_cancelItem: assumes "inv s" shows "inv (cancelItem i s)"
proof -
  let ?f = "\<lambda>it. if item_id it = i then it\<lparr>status := Canceled\<rparr> else it"
  let ?K = "targets (filter (\<lambda>it. item_id it = i) (items s))"
  obtain its' us' jobs' where m: "cancelItem_map i (items s) (uploads s, []) = (its', us', jobs')"
    by (metis prod_cases3)
  then have h: "snd (cancelItem_map i (items s) (uploads s, [])) = (us', jobs')" by simp
  have c: "cancelItem i s = drain jobs' (s\<lparr>items := map ?f (items s), uploads := us'\<rparr>)"
    using m cancelItem_map_items[of i "items s" "(uploads s, [])"]
    by (simp add: cancelItem_def)
  have ev: "evolves ?K (uploads s, []) (us', jobs')"
    using cancelItem_map_evolves[of i "items s" "(uploads s, [])"] h by simp
  have w: "wired (items s) (uploads s)" using assms by (simp add: inv_def)
  have w1: "wired (map ?f (items s)) (uploads s)"
    by (rule wired_map[OF w]) (auto split: if_splits)
  have w2: "wired (map ?f (items s)) us'"
  proof (rule wired_store[OF w1])
    show "length us' = length (uploads s)" using ev by (simp add: evolves_def)
  next
    fix it k
    assume it: "it \<in> set (map ?f (items s))" "status it = Uploading" "abortCtrl it = Some k"
      "k < length (uploads s)"
    from it(1) obtain x where x: "x \<in> set (items s)" "it = ?f x" by auto
    have xi: "item_id x \<noteq> i"
    proof
      assume "item_id x = i"
      with x(2) have "status it = Canceled" by simp
      with it(2) show False by simp
    qed
    with x have ni: "item_id it \<noteq> i" and mem: "it \<in> set (items s)" by simp_all
    from w mem it(2,3) have l: "pending (uploads s ! k)" "forId (uploads s ! k) = item_id it"
      by (auto simp: wired_def linked_def)
    have "k \<notin> ?K"
    proof
      assume "k \<in> ?K"
      then obtain x where x: "x \<in> set (items s)" "item_id x = i" "status x = Uploading"
        "abortCtrl x = Some k" by (auto simp: targets_def)
      with w have "forId (uploads s ! k) = i" by (auto simp: wired_def linked_def)
      with l ni show False by simp
    qed
    with ev it(4) have "us' ! k = uploads s ! k" by (simp add: evolves_def)
    with l show "pending (us' ! k) \<and> forId (us' ! k) = forId (uploads s ! k)" by simp
  qed
  have "acct (uploads s) [] (running s)"
    using assms by (simp add: inv_def acct_def)
  moreover have "\<forall>r. acct (uploads s) [] r \<longrightarrow> acct us' jobs' r"
    using ev by (simp add: evolves_def)
  ultimately have a: "acct us' jobs' (running s)"
    by blast
  let ?s1 = "s\<lparr>items := map ?f (items s), uploads := us'\<rparr>"
  from drain_acct[of ?s1 jobs' us'] a w2
  have d: "uploads (drain jobs' ?s1) = us'"
    "running (drain jobs' ?s1) = int (length (filter pending us'))"
    "wired (items (drain jobs' ?s1)) us'" by simp_all
  have "int (length (filter pending us')) \<le> running s"
    using a by (simp add: acct_def)
  with d assms show ?thesis unfolding c by (simp add: inv_def)
qed

lemma inv_cancelAll: assumes "inv s" shows "inv (cancelAll s)"
proof -
  let ?f = "\<lambda>it. it\<lparr>status := (if status it = Success then status it else Canceled)\<rparr>"
  obtain its' us' jobs' where m: "cancelAll_map (items s) (uploads s, []) = (its', us', jobs')"
    by (metis prod_cases3)
  then have h: "snd (cancelAll_map (items s) (uploads s, [])) = (us', jobs')" by simp
  have c: "cancelAll s = drain jobs' (s\<lparr>items := map ?f (items s), uploads := us'\<rparr>)"
    using m cancelAll_map_items[of "items s" "(uploads s, [])"]
    by (simp add: cancelAll_def)
  have ev: "evolves (targets (items s)) (uploads s, []) (us', jobs')"
    using cancelAll_map_evolves[of "items s" "(uploads s, [])"] h by simp
  have "filter (\<lambda>it. status it = Uploading) (map ?f (items s)) = []"
    by (auto simp: filter_empty_conv)
  then have w2: "wired (map ?f (items s)) us'"
    by (auto simp: wired_def ctrls_def)
  have "acct (uploads s) [] (running s)"
    using assms by (simp add: inv_def acct_def)
  moreover have "\<forall>r. acct (uploads s) [] r \<longrightarrow> acct us' jobs' r"
    using ev by (simp add: evolves_def)
  ultimately have a: "acct us' jobs' (running s)"
    by blast
  let ?s1 = "s\<lparr>items := map ?f (items s), uploads := us'\<rparr>"
  from drain_acct[of ?s1 jobs' us'] a w2
  have d: "uploads (drain jobs' ?s1) = us'"
    "running (drain jobs' ?s1) = int (length (filter pending us'))"
    "wired (items (drain jobs' ?s1)) us'" by simp_all
  have "int (length (filter pending us')) \<le> running s"
    using a by (simp add: acct_def)
  with d assms show ?thesis unfolding c by (simp add: inv_def)
qed

lemma tick_keeps: "promise m = Some v \<Longrightarrow> promise (snd (tick raw fin fail url m)) = Some v"
  by (simp add: tick_def Let_def settle_def)

lemma inv_Tick: assumes "inv s" shows "inv (Tick k raw fin fail url s)"
proof (cases "k < length (uploads s)")
  case False
  with assms show ?thesis by (simp add: Tick_def)
next
  case k: True
  define u where "u = uploads s ! k"
  obtain calls c where t: "tick raw fin fail url (call u) = (calls, c)"
    by (cases "tick raw fin fail url (call u)") auto
  define u' where "u' = u\<lparr>call := c\<rparr>"
  define its1 where "its1 = foldl (\<lambda>cur p. onProgress (forId u) p cur) (items s) calls"
  define s1 where "s1 = s\<lparr>items := its1, uploads := (uploads s)[k := u']\<rparr>"
  have T: "Tick k raw fin fail url s =
             (if promise (call u) = None \<and> promise c \<noteq> None then react k s1 else s1)"
    using k t by (simp add: Tick_def Let_def u_def u'_def its1_def s1_def)
  have w: "wired (items s) (uploads s)" using assms by (simp add: inv_def)
  have w1: "wired its1 (uploads s)"
    unfolding its1_def by (rule wired_progress_calls[OF w])
  have fid: "forId u' = forId u" by (simp add: u'_def)
  have keep: "promise c = Some v" if "promise (call u) = Some v" for v
    using tick_keeps[OF that, of raw fin fail url] t by simp
  have cnt: "int (length (filter pending ((uploads s)[k := u']))) =
             int (length (filter pending (uploads s))) - of_bool (pending u) + of_bool (pending u')"
    using filter_update_count[OF k, of pending u'] by (simp add: u_def)
  show ?thesis
  proof (cases "promise (call u) = None \<and> promise c \<noteq> None")
    case False
    then have same: "pending u' = pending u"
      using keep by (cases "promise (call u)") (auto simp: pending_def u'_def)
    have "wired its1 ((uploads s)[k := u'])"
    proof (rule wired_store[OF w1])
      show "length ((uploads s)[k := u']) = length (uploads s)" by simp
    next
      fix it j
      assume a: "it \<in> set its1" "status it = Uploading" "abortCtrl it = Some j" "j < length (uploads s)"
      with w1 have "pending (uploads s ! j)" by (auto simp: wired_def linked_def)
      with same fid a(4) show "pending ((uploads s)[k := u'] ! j) \<and>
            forId ((uploads s)[k := u'] ! j) = forId (uploads s ! j)"
        by (cases "j = k") (simp_all add: u_def)
    qed
    moreover have "Tick k raw fin fail url s = s1"
      using T False by presburger
    ultimately show ?thesis
      using assms cnt same by (simp add: inv_def s1_def)
  next
    case True
    then have pu: "pending u" "\<not> pending u'" by (simp_all add: pending_def u'_def)
    have k1: "k < length (uploads s1)" "\<not> pending (uploads s1 ! k)"
      using k pu by (simp_all add: s1_def)
    note r = react_settled[OF k1]
    have w2: "wired (items (react k s1)) (uploads s)"
      using r(3)[of "uploads s"] w1 by (simp add: s1_def)
    from True obtain v where v: "promise c = Some v" by auto
    have pc: "promise (call (uploads s1 ! k)) = Some v"
      using k v by (simp add: s1_def u'_def)
    have fk: "forId (uploads s1 ! k) = forId u"
      using k fid by (simp add: s1_def)
    have nup: "\<forall>it \<in> set (items (react k s1)). item_id it = forId u \<longrightarrow> status it \<noteq> Uploading"
    proof (cases v)
      case (Resolved url')
      with pc fk k1(1) have "items (react k s1) = onFulfilled (forId u) url' (items s1)"
        by (simp add: react_def)
      then show ?thesis by (auto simp: onFulfilled_def)
    next
      case (Rejected e)
      with pc fk k1(1) have "items (react k s1) = onRejected (forId u) e (items s1)"
        by (simp add: react_def)
      then show ?thesis by (auto simp: onRejected_def)
    qed
    have "wired (items (react k s1)) ((uploads s)[k := u'])"
    proof (rule wired_store[OF w2])
      show "length ((uploads s)[k := u']) = length (uploads s)" by simp
    next
      fix it j
      assume a: "it \<in> set (items (react k s1))" "status it = Uploading" "abortCtrl it = Some j"
        "j < length (uploads s)"
      with w2 have l: "pending (uploads s ! j)" "forId (uploads s ! j) = item_id it"
        by (auto simp: wired_def linked_def)
      from nup a(1,2) have "item_id it \<noteq> forId u" by auto
      with l have "j \<noteq> k" by (auto simp: u_def)
      with l show "pending ((uploads s)[k := u'] ! j) \<and>
            forId ((uploads s)[k := u'] ! j) = forId (uploads s ! j)"
        by simp
    qed
    moreover have "Tick k raw fin fail url s = react k s1"
      using T True by presburger
    ultimately show ?thesis
      using assms cnt pu r(1,2) by (simp add: inv_def s1_def)
  qed
qed

lemma inv_step: "inv s \<Longrightarrow> inv (step s e)"
  by (cases e)
     (simp_all add: inv_enqueue inv_cancelItem inv_retryItem inv_removeItem inv_startAll
        inv_cancelAll inv_pump inv_Tick)

lemma inv_run: "inv (run evs)"
  unfolding run_def
  by (induction evs rule: rev_induct) (simp_all add: inv_init inv_step)

section \<open>The concurrency bound\<close>

text \<open>
  C1. In every state that a sequence of events reaches from the empty queue, the number
  of items whose status is uploading is at most the concurrency limit, which is 3. The
  counter \<^verbatim>\<open>running.current\<close> is the number of transfers whose promise is pending: it is
  incremented when an item is admitted and decremented once, by the reactions of the
  promise, when the transfer settles. It bounds the number of uploading items and never
  exceeds the limit. One call of \<^verbatim>\<open>pump\<close> starts as many transfers as it adds to the
  counter, and at most the limit minus the counter.
\<close>

theorem concurrency_bound:
  "length (filter (\<lambda>it. status it = Uploading) (items (run evs))) \<le> 3 \<and>
   CONCURRENCY = 3 \<and>
   int (length (filter (\<lambda>it. status it = Uploading) (items (run evs)))) \<le> running (run evs) \<and>
   running (run evs) \<le> CONCURRENCY \<and>
   running (run evs) = int (length (filter pending (uploads (run evs)))) \<and>
   int (length (uploads (pump (run evs)))) - int (length (uploads (run evs))) =
     running (pump (run evs)) - running (run evs) \<and>
   running (pump (run evs)) - running (run evs) \<le> CONCURRENCY - running (run evs)"
proof -
  let ?s = "run evs"
  have i: "inv ?s" by (rule inv_run)
  have b: "int (length (filter (\<lambda>it. status it = Uploading) (items ?s))) \<le> running ?s"
    "running ?s \<le> CONCURRENCY" "running ?s = int (length (filter pending (uploads ?s)))"
    using i wired_count[of "items ?s" "uploads ?s"] by (simp_all add: inv_def)
  have p: "int (length (uploads (pump ?s))) - int (length (uploads ?s)) =
             running (pump ?s) - running ?s \<and>
           running (pump ?s) - running ?s \<le> CONCURRENCY - running ?s"
  proof (cases "running ?s \<ge> CONCURRENCY")
    case True
    with b(2) show ?thesis by (simp add: pump_def)
  next
    case False
    obtain its' st' r' us' where pl:
      "pump_loop (CONCURRENCY - running ?s) (items ?s) (0, running ?s, uploads ?s) = (its', st', r', us')"
      by (metis prod_cases4)
    have ps: "pump ?s = ?s\<lparr>items := its', running := r', uploads := us'\<rparr>"
      using False pl by (simp add: pump_def)
    from pump_loop_counts[OF pl] False show ?thesis
      unfolding ps by simp
  qed
  from b p show ?thesis by (simp add: CONCURRENCY_def)
qed

section \<open>Idempotence\<close>

text \<open>
  C6. \<^verbatim>\<open>pump\<close> is idempotent: a second call right after a first one leaves the state as
  it is. The items, the counter and the store are the same, so the second call changes
  no status, makes no controller and starts no transfer.
\<close>

theorem pump_idempotent: "pump (pump s) = pump s"
proof (cases "running s \<ge> CONCURRENCY")
  case True
  then show ?thesis by (simp add: pump_def)
next
  case False
  obtain its' st' r' us' where pl:
    "pump_loop (CONCURRENCY - running s) (items s) (0, running s, uploads s) = (its', st', r', us')"
    by (metis prod_cases4)
  have ps: "pump s = s\<lparr>items := its', running := r', uploads := us'\<rparr>"
    using False pl by (simp add: pump_def)
  from pump_loop_counts[OF pl] False
  have c: "r' = running s + st'" "st' \<le> CONCURRENCY - running s"
    "st' < CONCURRENCY - running s \<longrightarrow> (\<forall>it \<in> set its'. status it \<noteq> Queued)"
    by auto
  have "pump (s\<lparr>items := its', running := r', uploads := us'\<rparr>) =
        s\<lparr>items := its', running := r', uploads := us'\<rparr>"
  proof (cases "r' \<ge> CONCURRENCY")
    case True
    then show ?thesis by (simp add: pump_def)
  next
    case nf: False
    with c have "\<forall>it \<in> set its'. status it \<noteq> Queued" by auto
    then have "pump_loop (CONCURRENCY - r') its' (0, r', us') = (its', 0, r', us')"
      by (rule pump_loop_no_queued)
    with nf show ?thesis by (simp add: pump_def)
  qed
  then show ?thesis by (simp only: ps)
qed

section \<open>What pushFiles adds\<close>

lemma validate_each_files:
  "validate_each v uid url fs (toAdd, errs) = Inr (a, e) \<Longrightarrow>
   map item_file a = map item_file toAdd @ filter (\<lambda>f. v f = Inr None) fs \<and>
   map fst e = map fst errs @ map file_name (filter (\<lambda>f. v f \<noteq> Inr None) fs)"
proof (induction fs arbitrary: toAdd errs)
  case Nil
  then show ?case by simp
next
  case (Cons f fs)
  show ?case
  proof (cases "v f")
    case (Inl thrown)
    with Cons(2) show ?thesis by simp
  next
    case (Inr r)
    show ?thesis
    proof (cases r)
      case (Some err)
      with Inr Cons(2) have "validate_each v uid url fs (toAdd, errs @ [(file_name f, err)]) = Inr (a, e)"
        by simp
      from Cons(1)[OF this] Inr Some show ?thesis by simp
    next
      case None
      with Inr Cons(2) have "validate_each v uid url fs
          (toAdd @ [\<lparr>item_id = uid (length toAdd), item_file = f, previewUrl = url (length toAdd),
                     progress = 0, status = Queued, error = None, serverUrl = None,
                     abortCtrl = None\<rparr>], errs) = Inr (a, e)"
        by simp
      from Cons(1)[OF this] Inr None show ?thesis by simp
    qed
  qed
qed

lemma pushFilesWith_split:
  "pushFilesWith v uid url arr prev =
     (case validate_each v uid url
             (filter (\<lambda>f. \<not> (\<exists>x \<in> set prev. isDuplicate f (item_file x)))
                (take (MAX_FILES - length prev) arr)) ([], []) of
        Inl thrown \<Rightarrow> Inl thrown
      | Inr (toAdd, errors) \<Rightarrow> Inr (prev @ toAdd, errors))"
proof -
  have "nat (max 0 (int MAX_FILES - int (length prev))) = MAX_FILES - length prev"
    by simp
  then show ?thesis
    by (simp add: pushFilesWith_def Let_def list_ex_iff)
qed

text \<open>The files behind the cap and the duplicates of existing items change nothing.\<close>

lemma pushFilesWith_kept:
  "pushFilesWith v uid url arr prev =
   pushFilesWith v uid url
     (filter (\<lambda>f. \<not> (\<exists>x \<in> set prev. isDuplicate f (item_file x)))
        (take (MAX_FILES - length prev) arr)) prev"
proof -
  let ?kept = "filter (\<lambda>f. \<not> (\<exists>x \<in> set prev. isDuplicate f (item_file x)))
                 (take (MAX_FILES - length prev) arr)"
  have "length ?kept \<le> MAX_FILES - length prev"
    by (rule order_trans[OF length_filter_le]) simp
  then have "take (MAX_FILES - length prev) ?kept = ?kept" by simp
  then have "filter (\<lambda>f. \<not> (\<exists>x \<in> set prev. isDuplicate f (item_file x)))
               (take (MAX_FILES - length prev) ?kept) = ?kept"
    by simp
  then show ?thesis
    unfolding pushFilesWith_split[of v uid url ?kept] pushFilesWith_split[of v uid url arr]
    by simp
qed

lemma pushFilesWith_spec:
  assumes "pushFilesWith v uid url arr prev = Inr (next, errors)"
  shows "take (length prev) next = prev"
    and "map item_file (drop (length prev) next) =
           filter (\<lambda>f. v f = Inr None)
             (filter (\<lambda>f. \<not> (\<exists>x \<in> set prev. isDuplicate f (item_file x)))
                (take (MAX_FILES - length prev) arr))"
    and "map fst errors =
           map file_name (filter (\<lambda>f. v f \<noteq> Inr None)
             (filter (\<lambda>f. \<not> (\<exists>x \<in> set prev. isDuplicate f (item_file x)))
                (take (MAX_FILES - length prev) arr)))"
    and "length prev \<le> MAX_FILES \<Longrightarrow> length next \<le> MAX_FILES"
proof -
  let ?kept = "filter (\<lambda>f. \<not> (\<exists>x \<in> set prev. isDuplicate f (item_file x)))
                 (take (MAX_FILES - length prev) arr)"
  from assms obtain toAdd where
    v: "validate_each v uid url ?kept ([], []) = Inr (toAdd, errors)" and n: "next = prev @ toAdd"
    unfolding pushFilesWith_split by (auto split: sum.splits)
  from validate_each_files[OF v] have
    f: "map item_file toAdd = filter (\<lambda>f. v f = Inr None) ?kept" and
    e: "map fst errors = map file_name (filter (\<lambda>f. v f \<noteq> Inr None) ?kept)"
    by simp_all
  show "take (length prev) next = prev" using n by simp
  show "map item_file (drop (length prev) next) = filter (\<lambda>f. v f = Inr None) ?kept"
    using n f by simp
  show "map fst errors = map file_name (filter (\<lambda>f. v f \<noteq> Inr None) ?kept)"
    by (rule e)
  have "length toAdd = length (map item_file toAdd)" by simp
  also have "\<dots> \<le> length ?kept" unfolding f by (rule length_filter_le)
  also have "\<dots> \<le> length (take (MAX_FILES - length prev) arr)" by (rule length_filter_le)
  also have "\<dots> \<le> MAX_FILES - length prev" by simp
  finally have "length toAdd \<le> MAX_FILES - length prev" .
  then show "length next \<le> MAX_FILES" if "length prev \<le> MAX_FILES"
    using that n by simp
qed

text \<open>
  \<^verbatim>\<open>validateFile\<close> throws for every file, so \<^verbatim>\<open>pushFiles\<close> throws as soon as one file is
  left after the cap and the duplicate filter, and adds nothing when none is.
\<close>

lemma validateFile_throws: "validateFile f = Inl (NotDefined ''ACCEPT'')"
  by (simp add: validateFile_def validateBody_def)

lemma validate_each_source:
  "validate_each validateFile uid url fs acc = (if fs = [] then Inr acc else Inl (NotDefined ''ACCEPT''))"
  by (cases fs; cases acc) (simp_all add: validateFile_throws)

lemma pushFiles_source:
  "pushFiles uid url arr prev =
     (if filter (\<lambda>f. \<not> (\<exists>x \<in> set prev. isDuplicate f (item_file x)))
           (take (MAX_FILES - length prev) arr) = []
      then Inr (prev, []) else Inl (NotDefined ''ACCEPT''))"
  unfolding pushFiles_def pushFilesWith_split validate_each_source by simp

lemma enqueue_source: "enqueue validateFile uid url arr s = s"
  using pushFiles_source[of uid url arr "items s"]
  by (simp add: enqueue_def pushFiles_def split: if_splits)

lemma enqueue_nothing: "step s (PushFiles uid url []) = s"
  by (simp add: enqueue_def pushFilesWith_def)

section \<open>The transfers that a cancel command settles\<close>

lemma settles_refl: "settles K h h"
  by (simp add: settles_def)

lemma settles_trans: "settles K h h' \<Longrightarrow> settles K' h' h'' \<Longrightarrow> settles (K \<union> K') h h''"
  unfolding settles_def by blast

lemma dispatchAbort_settled:
  "promise m = None \<Longrightarrow> promise (dispatchAbort m) \<noteq> None \<Longrightarrow>
   promise (dispatchAbort m) = Some (Rejected (DOMException ''Aborted'' ''AbortError''))"
  by (auto simp: dispatchAbort_def onAbort_def Let_def settle_def split: if_splits)

lemma dispatchAbort_live:
  "promise m = None \<Longrightarrow> listening m \<Longrightarrow> timer m \<noteq> Uninitialised \<Longrightarrow>
   promise (dispatchAbort m) = Some (Rejected (DOMException ''Aborted'' ''AbortError''))"
  by (simp add: dispatchAbort_def onAbort_def Let_def settle_def)

lemma abort_armed: "armed (fst h) k \<Longrightarrow> k \<in> set (snd (abort k h))"
  by (simp add: armed_def abort_def Let_def dispatchAbort_live)

lemma abort_settles: "settles {k} h (abort k h)"
proof (cases "k < length (fst h) \<and> \<not> aborted (fst h ! k)")
  case False
  then have "abort k h = h" by (auto simp: abort_def Let_def)
  then show ?thesis by (simp add: settles_refl)
next
  case True
  define us where "us = fst h"
  define jobs where "jobs = snd h"
  define c where "c = dispatchAbort (call (us ! k))"
  define u' where "u' = (us ! k)\<lparr>aborted := True, call := c\<rparr>"
  define jobs' where "jobs' = (if promise (call (us ! k)) = None \<and> promise c \<noteq> None then jobs @ [k] else jobs)"
  have a: "abort k h = (us[k := u'], jobs')"
    using True by (simp add: abort_def Let_def us_def jobs_def c_def u'_def jobs'_def)
  have k: "k < length us" using True by (simp add: us_def)
  have cu: "call u' = c" by (simp add: u'_def)
  have keep: "promise c = Some v" if "promise (call (us ! k)) = Some v" for v
    using that by (simp add: c_def dispatchAbort_keeps)
  have new: "promise c = Some (Rejected (DOMException ''Aborted'' ''AbortError''))"
    if "promise (call (us ! k)) = None" "promise c \<noteq> None"
    using that dispatchAbort_settled[of "call (us ! k)"] by (simp add: c_def)
  have s1: "set jobs \<subseteq> set jobs'" "set jobs' \<subseteq> set jobs \<union> {k}"
    by (auto simp: jobs'_def)
  have s2: "rejectedJobs (us[k := u'], jobs')" if r: "rejectedJobs (us, jobs)"
    unfolding rejectedJobs_def
  proof (intro ballI)
    fix j assume j: "j \<in> set (snd (us[k := u'], jobs'))"
    show "j < length (fst (us[k := u'], jobs')) \<and>
          promise (call (fst (us[k := u'], jobs') ! j)) =
            Some (Rejected (DOMException ''Aborted'' ''AbortError''))"
    proof (cases "j = k")
      case True
      show ?thesis
      proof (cases "k \<in> set jobs")
        case True
        with r have "promise (call (us ! k)) = Some (Rejected (DOMException ''Aborted'' ''AbortError''))"
          by (simp add: rejectedJobs_def)
        from keep[OF this] \<open>j = k\<close> k cu show ?thesis by simp
      next
        case False
        with j \<open>j = k\<close> have "promise (call (us ! k)) = None \<and> promise c \<noteq> None"
          by (auto simp: jobs'_def split: if_splits)
        with new \<open>j = k\<close> k cu show ?thesis by simp
      qed
    next
      case False
      with j have "j \<in> set jobs" by (auto simp: jobs'_def split: if_splits)
      with r False show ?thesis by (simp add: rejectedJobs_def)
    qed
  qed
  have s3: "j \<in> set jobs' \<or> armed (us[k := u']) j" if "j \<in> set jobs \<or> armed us j" for j
  proof (cases "j = k")
    case True
    with that abort_armed[of h k] a s1 show ?thesis
      by (auto simp: us_def jobs_def)
  next
    case False
    with that s1 show ?thesis by (auto simp: armed_def)
  qed
  have hh: "h = (us, jobs)" by (simp add: us_def jobs_def)
  have "settles {k} (us, jobs) (us[k := u'], jobs')"
    unfolding settles_def using s1 s2 s3 by auto
  with a hh show ?thesis by metis
qed

lemma abortIfUploading_settles: "settles (targets [it]) h (abortIfUploading it h)"
proof (cases "status it = Uploading")
  case False
  then show ?thesis by (simp add: abortIfUploading_def settles_refl)
next
  case True
  show ?thesis
  proof (cases "abortCtrl it")
    case None
    with True show ?thesis by (simp add: abortIfUploading_def settles_refl)
  next
    case (Some k)
    with True have "targets [it] = {k}" by (auto simp: targets_def)
    with True Some show ?thesis by (simp add: abortIfUploading_def abort_settles)
  qed
qed

lemma cancelItem_map_settles:
  "settles (targets (filter (\<lambda>it. item_id it = i) its)) h (snd (cancelItem_map i its h))"
proof (induction its arbitrary: h)
  case Nil
  then show ?case by (simp add: settles_refl)
next
  case (Cons it rest)
  show ?case
  proof (cases "item_id it = i")
    case False
    with Cons show ?thesis unfolding cancelItem_map_Cons by simp
  next
    case True
    have "settles (targets [it] \<union> targets (filter (\<lambda>it. item_id it = i) rest)) h
            (snd (cancelItem_map i rest (abortIfUploading it h)))"
      using abortIfUploading_settles Cons by (rule settles_trans)
    with True show ?thesis
      unfolding cancelItem_map_Cons
      by (simp add: targets_Cons[of it "filter (\<lambda>it. item_id it = i) rest"])
  qed
qed

lemma cancelAll_map_settles: "settles (targets its) h (snd (cancelAll_map its h))"
proof (induction its arbitrary: h)
  case Nil
  then show ?case by (simp add: settles_refl)
next
  case (Cons it rest)
  have "settles (targets [it] \<union> targets rest) h (snd (cancelAll_map rest (abortIfUploading it h)))"
    using abortIfUploading_settles Cons by (rule settles_trans)
  then show ?case
    unfolding cancelAll_map_Cons by (simp add: targets_Cons[of it rest])
qed

lemma cancelItem_map_job:
  "k \<in> set (snd h) \<or> armed (fst h) k \<Longrightarrow>
   \<exists>it \<in> set its. item_id it = i \<and> status it = Uploading \<and> abortCtrl it = Some k \<Longrightarrow>
   k \<in> set (snd (snd (cancelItem_map i its h)))"
proof (induction its arbitrary: h)
  case Nil
  then show ?case by simp
next
  case (Cons it rest)
  show ?case
  proof (cases "item_id it = i")
    case False
    with Cons show ?thesis unfolding cancelItem_map_Cons by simp
  next
    case True
    let ?h1 = "abortIfUploading it h"
    have P1: "k \<in> set (snd ?h1) \<or> armed (fst ?h1) k"
      using abortIfUploading_settles[of it h] Cons(2) unfolding settles_def by blast
    have rest: "set (snd ?h1) \<subseteq> set (snd (snd (cancelItem_map i rest ?h1)))"
      using cancelItem_map_settles[of i rest ?h1] by (simp add: settles_def)
    show ?thesis
    proof (cases "status it = Uploading \<and> abortCtrl it = Some k")
      case here: True
      then have "?h1 = abort k h" by (simp add: abortIfUploading_def)
      moreover have "k \<in> set (snd (abort k h))"
        using Cons(2) abort_armed[of h k] abort_settles[of k h] by (auto simp: settles_def)
      ultimately show ?thesis
        using rest True unfolding cancelItem_map_Cons by auto
    next
      case False
      with Cons(3) True have "\<exists>it \<in> set rest. item_id it = i \<and> status it = Uploading \<and> abortCtrl it = Some k"
        by auto
      from Cons(1)[OF P1 this] True show ?thesis
        unfolding cancelItem_map_Cons by simp
    qed
  qed
qed

lemma react_rejected:
  assumes "k < length (uploads s)"
    and "promise (call (uploads s ! k)) = Some (Rejected (DOMException ''Aborted'' ''AbortError''))"
  shows "react k s =
           s\<lparr>items := map (\<lambda>x. if item_id x = forId (uploads s ! k)
                                then x\<lparr>status := Canceled, error := None\<rparr> else x) (items s),
             running := running s - 1\<rparr>"
  using assms by (simp add: react_def onRejected_def)

lemma drain_cancelled:
  "rejectedJobs (uploads s, jobs) \<Longrightarrow>
   drain jobs s =
     s\<lparr>items := map (\<lambda>x. if item_id x \<in> (\<lambda>k. forId (uploads s ! k)) ` set jobs
                          then x\<lparr>status := Canceled, error := None\<rparr> else x) (items s),
       running := running s - int (length jobs)\<rparr>"
proof (induction jobs arbitrary: s)
  case Nil
  then show ?case by (simp add: drain_def)
next
  case (Cons k jobs)
  from Cons(2) have k: "k < length (uploads s)"
    "promise (call (uploads s ! k)) = Some (Rejected (DOMException ''Aborted'' ''AbortError''))"
    by (simp_all add: rejectedJobs_def)
  note r = react_rejected[OF k]
  have u: "uploads (react k s) = uploads s" by (simp add: r)
  have "rejectedJobs (uploads (react k s), jobs)"
    using Cons(2) unfolding u by (simp add: rejectedJobs_def)
  from Cons(1)[OF this] have "drain (k # jobs) s =
      (react k s)\<lparr>items := map (\<lambda>x. if item_id x \<in> (\<lambda>k. forId (uploads s ! k)) ` set jobs
                          then x\<lparr>status := Canceled, error := None\<rparr> else x) (items (react k s)),
       running := running (react k s) - int (length jobs)\<rparr>"
    unfolding u by (simp add: drain_def)
  also have "\<dots> = s\<lparr>items := map (\<lambda>x. if item_id x \<in> (\<lambda>k. forId (uploads s ! k)) ` set (k # jobs)
                          then x\<lparr>status := Canceled, error := None\<rparr> else x) (items s),
       running := running s - int (length (k # jobs))\<rparr>"
    unfolding r by auto
  finally show ?case .
qed

text \<open>What \<^verbatim>\<open>cancelItem\<close> and \<^verbatim>\<open>cancelAll\<close> do, with the transfers that they settle.\<close>

lemma cancelItem_result:
  obtains us' jobs' where
    "snd (cancelItem_map i (items s) (uploads s, [])) = (us', jobs')"
    "evolves (targets (filter (\<lambda>it. item_id it = i) (items s))) (uploads s, []) (us', jobs')"
    "settles (targets (filter (\<lambda>it. item_id it = i) (items s))) (uploads s, []) (us', jobs')"
    "cancelItem i s =
       s\<lparr>items := map (\<lambda>x. if item_id x \<in> (\<lambda>k. forId (us' ! k)) ` set jobs'
                            then x\<lparr>status := Canceled, error := None\<rparr> else x)
                  (map (\<lambda>it. if item_id it = i then it\<lparr>status := Canceled\<rparr> else it) (items s)),
         uploads := us', running := running s - int (length jobs')\<rparr>"
proof -
  obtain its' us' jobs' where m: "cancelItem_map i (items s) (uploads s, []) = (its', us', jobs')"
    by (metis prod_cases3)
  then have h: "snd (cancelItem_map i (items s) (uploads s, [])) = (us', jobs')" by simp
  have its: "its' = map (\<lambda>it. if item_id it = i then it\<lparr>status := Canceled\<rparr> else it) (items s)"
    using m cancelItem_map_items[of i "items s" "(uploads s, [])"] by simp
  have ev: "evolves (targets (filter (\<lambda>it. item_id it = i) (items s))) (uploads s, []) (us', jobs')"
    using cancelItem_map_evolves[of i "items s" "(uploads s, [])"] h by simp
  have st: "settles (targets (filter (\<lambda>it. item_id it = i) (items s))) (uploads s, []) (us', jobs')"
    using cancelItem_map_settles[of i "items s" "(uploads s, [])"] h by simp
  then have rj: "rejectedJobs (us', jobs')" by (simp add: settles_def rejectedJobs_def)
  have c: "cancelItem i s = drain jobs' (s\<lparr>items := its', uploads := us'\<rparr>)"
    using m by (simp add: cancelItem_def)
  have "cancelItem i s =
       s\<lparr>items := map (\<lambda>x. if item_id x \<in> (\<lambda>k. forId (us' ! k)) ` set jobs'
                            then x\<lparr>status := Canceled, error := None\<rparr> else x) its',
         uploads := us', running := running s - int (length jobs')\<rparr>"
    unfolding c using drain_cancelled[of "s\<lparr>items := its', uploads := us'\<rparr>" jobs'] rj by simp
  with h ev st its show ?thesis using that by blast
qed

lemma cancelAll_result:
  obtains us' jobs' where
    "snd (cancelAll_map (items s) (uploads s, [])) = (us', jobs')"
    "evolves (targets (items s)) (uploads s, []) (us', jobs')"
    "settles (targets (items s)) (uploads s, []) (us', jobs')"
    "cancelAll s =
       s\<lparr>items := map (\<lambda>x. if item_id x \<in> (\<lambda>k. forId (us' ! k)) ` set jobs'
                            then x\<lparr>status := Canceled, error := None\<rparr> else x)
                  (map (\<lambda>it. it\<lparr>status := (if status it = Success then status it else Canceled)\<rparr>)
                     (items s)),
         uploads := us', running := running s - int (length jobs')\<rparr>"
proof -
  obtain its' us' jobs' where m: "cancelAll_map (items s) (uploads s, []) = (its', us', jobs')"
    by (metis prod_cases3)
  then have h: "snd (cancelAll_map (items s) (uploads s, [])) = (us', jobs')" by simp
  have its: "its' = map (\<lambda>it. it\<lparr>status := (if status it = Success then status it else Canceled)\<rparr>) (items s)"
    using m cancelAll_map_items[of "items s" "(uploads s, [])"] by simp
  have ev: "evolves (targets (items s)) (uploads s, []) (us', jobs')"
    using cancelAll_map_evolves[of "items s" "(uploads s, [])"] h by simp
  have st: "settles (targets (items s)) (uploads s, []) (us', jobs')"
    using cancelAll_map_settles[of "items s" "(uploads s, [])"] h by simp
  then have rj: "rejectedJobs (us', jobs')" by (simp add: settles_def rejectedJobs_def)
  have c: "cancelAll s = drain jobs' (s\<lparr>items := its', uploads := us'\<rparr>)"
    using m by (simp add: cancelAll_def)
  have "cancelAll s =
       s\<lparr>items := map (\<lambda>x. if item_id x \<in> (\<lambda>k. forId (us' ! k)) ` set jobs'
                            then x\<lparr>status := Canceled, error := None\<rparr> else x) its',
         uploads := us', running := running s - int (length jobs')\<rparr>"
    unfolding c using drain_cancelled[of "s\<lparr>items := its', uploads := us'\<rparr>" jobs'] rj by simp
  with h ev st its show ?thesis using that by blast
qed

text \<open>The ids of the transfers that a cancel command settles are ids of uploading items.\<close>

lemma settled_ids:
  assumes w: "wired (items s) (uploads s)"
    and ev: "evolves (targets its0) (uploads s, []) (us', jobs')"
    and st: "settles (targets its0) (uploads s, []) (us', jobs')"
    and sub: "set its0 \<subseteq> set (items s)"
  shows "(\<lambda>k. forId (us' ! k)) ` set jobs' \<subseteq> item_id ` {it \<in> set its0. status it = Uploading}"
proof
  fix y assume "y \<in> (\<lambda>k. forId (us' ! k)) ` set jobs'"
  then obtain k where k: "k \<in> set jobs'" "y = forId (us' ! k)" by auto
  from st k(1) have "k \<in> targets its0" by (auto simp: settles_def)
  then obtain it where it: "it \<in> set its0" "status it = Uploading" "abortCtrl it = Some k"
    by (auto simp: targets_def)
  with w sub have l: "k < length (uploads s)" "forId (uploads s ! k) = item_id it"
    by (auto simp: wired_def linked_def)
  with ev have "forId (us' ! k) = item_id it" by (simp add: evolves_def)
  with k it show "y \<in> item_id ` {it \<in> set its0. status it = Uploading}" by auto
qed

section \<open>The items that an event leaves alone\<close>

lemma progress_calls_length:
  "length (foldl (\<lambda>cur p. onProgress a p cur) its calls) = length its"
  by (induction calls arbitrary: its) (simp_all add: onProgress_def)

lemma progress_calls_other:
  "i < length its \<Longrightarrow> item_id (its ! i) \<noteq> a \<Longrightarrow>
   foldl (\<lambda>cur p. onProgress a p cur) its calls ! i = its ! i"
  by (induction calls arbitrary: its) (simp_all add: onProgress_def)

lemma react_length: "length (items (react k s)) = length (items s)"
  by (simp add: react_def onFulfilled_def onRejected_def split: option.splits settlement.splits)

lemma react_other:
  "i < length (items s) \<Longrightarrow> (k < length (uploads s) \<longrightarrow> forId (uploads s ! k) \<noteq> item_id (items s ! i)) \<Longrightarrow>
   items (react k s) ! i = items s ! i"
  by (auto simp: react_def onFulfilled_def onRejected_def split: option.splits settlement.splits)

lemma Tick_length: "length (items (Tick k raw fin fail url s)) = length (items s)"
  by (simp add: Tick_def Let_def react_length progress_calls_length split: prod.splits)

lemma Tick_other:
  assumes "i < length (items s)"
    and "k < length (uploads s) \<longrightarrow> forId (uploads s ! k) \<noteq> item_id (items s ! i)"
  shows "items (Tick k raw fin fail url s) ! i = items s ! i"
proof (cases "k < length (uploads s)")
  case False
  then show ?thesis by (simp add: Tick_def)
next
  case k: True
  define u where "u = uploads s ! k"
  obtain calls c where t: "tick raw fin fail url (call u) = (calls, c)"
    by (cases "tick raw fin fail url (call u)") auto
  define s1 where "s1 = s\<lparr>items := foldl (\<lambda>cur p. onProgress (forId u) p cur) (items s) calls,
                            uploads := (uploads s)[k := u\<lparr>call := c\<rparr>]\<rparr>"
  have T: "Tick k raw fin fail url s =
             (if promise (call u) = None \<and> promise c \<noteq> None then react k s1 else s1)"
    using k t by (simp add: Tick_def Let_def u_def s1_def)
  have ne: "forId u \<noteq> item_id (items s ! i)" using assms(2) k by (simp add: u_def)
  have i1: "items s1 ! i = items s ! i" "i < length (items s1)"
    using assms(1) ne by (simp_all add: s1_def progress_calls_other progress_calls_length)
  have "items (react k s1) ! i = items s1 ! i"
    by (rule react_other) (use i1 k ne in \<open>simp_all add: s1_def\<close>)
  with i1 show ?thesis unfolding T by simp
qed

lemma pump_length: "length (items (pump s)) = length (items s)"
proof (cases "running s \<ge> CONCURRENCY")
  case True
  then show ?thesis by (simp add: pump_def)
next
  case False
  then show ?thesis
    using pump_loop_length[of "CONCURRENCY - running s" "items s" "(0, running s, uploads s)"]
    by (auto simp: pump_def split: prod.splits)
qed

lemma cancelItem_length: "length (items (cancelItem i s)) = length (items s)"
proof -
  obtain us' jobs' where
    "cancelItem i s =
       s\<lparr>items := map (\<lambda>x. if item_id x \<in> (\<lambda>k. forId (us' ! k)) ` set jobs'
                            then x\<lparr>status := Canceled, error := None\<rparr> else x)
                  (map (\<lambda>it. if item_id it = i then it\<lparr>status := Canceled\<rparr> else it) (items s)),
         uploads := us', running := running s - int (length jobs')\<rparr>"
    by (rule cancelItem_result)
  then show ?thesis by simp
qed

lemma cancelAll_length: "length (items (cancelAll s)) = length (items s)"
proof -
  obtain us' jobs' where
    "cancelAll s =
       s\<lparr>items := map (\<lambda>x. if item_id x \<in> (\<lambda>k. forId (us' ! k)) ` set jobs'
                            then x\<lparr>status := Canceled, error := None\<rparr> else x)
                  (map (\<lambda>it. it\<lparr>status := (if status it = Success then status it else Canceled)\<rparr>)
                     (items s)),
         uploads := us', running := running s - int (length jobs')\<rparr>"
    by (rule cancelAll_result)
  then show ?thesis by simp
qed

lemma step_length:
  "length (items s) \<le> MAX_FILES \<Longrightarrow> length (items (step s e)) \<le> MAX_FILES"
proof (cases e)
  case (PushFiles uid url arr)
  assume l: "length (items s) \<le> MAX_FILES"
  show ?thesis
  proof (cases "pushFilesWith validateInScope uid url arr (items s)")
    case (Inl thrown)
    with l PushFiles show ?thesis by (simp add: enqueue_def)
  next
    case (Inr r)
    obtain "next" errors where r: "r = (next, errors)" by (cases r) auto
    from pushFilesWith_spec(4)[OF Inr[unfolded r] l] Inr r PushFiles show ?thesis
      by (simp add: enqueue_def)
  qed
next
  case (RemoveItem i)
  assume "length (items s) \<le> MAX_FILES"
  moreover have "length (filter (\<lambda>x. item_id x \<noteq> i) (items s)) \<le> length (items s)"
    by (rule length_filter_le)
  ultimately have "length (filter (\<lambda>x. item_id x \<noteq> i) (items s)) \<le> MAX_FILES"
    by (rule order_trans[rotated])
  then show ?thesis using RemoveItem by (simp add: removeItem_def)
qed (simp_all add: cancelItem_length cancelAll_length pump_length Tick_length retryItem_def startAll_def)

lemma run_length: "length (items (run evs)) \<le> MAX_FILES"
  unfolding run_def
  by (induction evs rule: rev_induct) (simp_all add: init_def step_length)

lemma pump_keeps:
  assumes "i < length (items s)" and "status (items s ! i) \<noteq> Queued"
  shows "items (pump s) ! i = items s ! i"
proof (cases "running s \<ge> CONCURRENCY")
  case True
  then show ?thesis by (simp add: pump_def)
next
  case False
  obtain its' st' where pl:
    "pump_loop (CONCURRENCY - running s) (items s) (0, running s, uploads s) = (its', st')"
    by (cases "pump_loop (CONCURRENCY - running s) (items s) (0, running s, uploads s)") auto
  have "items (pump s) = its'"
    using False pl by (simp add: pump_def split: prod.splits)
  with pump_loop_keeps[OF pl assms] show ?thesis by simp
qed

lemma pump_admits:
  assumes "i < length (items s)" and "status (items s ! i) = Queued"
    and "running s + int (queued_before i (items s)) < CONCURRENCY"
  shows "status (items (pump s) ! i) = Uploading"
proof -
  have nf: "\<not> running s \<ge> CONCURRENCY" using assms(3) by linarith
  obtain its' st' where pl:
    "pump_loop (CONCURRENCY - running s) (items s) (0, running s, uploads s) = (its', st')"
    by (cases "pump_loop (CONCURRENCY - running s) (items s) (0, running s, uploads s)") auto
  have "items (pump s) = its'"
    using nf pl by (simp add: pump_def split: prod.splits)
  moreover have "0 + int (queued_before i (items s)) < CONCURRENCY - running s"
    using assms(3) by linarith
  ultimately show ?thesis
    using pump_loop_admits[OF pl assms(1,2)] by simp
qed

lemma Tick_failure:
  assumes k: "k < length (uploads s)"
    and live: "promise (call (uploads s ! k)) = None" "timer (call (uploads s ! k)) = Active"
      "\<not> canceled (call (uploads s ! k))"
  shows "Tick k raw True True url s =
           s\<lparr>items := onRejected (forId (uploads s ! k)) (JsError networkErrorMessage)
                        (onProgress (forId (uploads s ! k)) (min 99 raw) (items s)),
             uploads := (uploads s)[k := (uploads s ! k)\<lparr>call := (call (uploads s ! k))
                           \<lparr>timer := Cleared, promise := Some (Rejected (JsError networkErrorMessage))\<rparr>\<rparr>],
             running := running s - 1\<rparr>"
  using assms by (simp add: Tick_def tick_def Let_def settle_def react_def)

section \<open>The example states\<close>

lemma threeUploading_eq:
  "threeUploading =
     \<lparr>items = [(queuedItem ''a'')\<lparr>abortCtrl := Some 0, status := Uploading\<rparr>,
               (queuedItem ''b'')\<lparr>abortCtrl := Some 1, status := Uploading\<rparr>,
               (queuedItem ''c'')\<lparr>abortCtrl := Some 2, status := Uploading\<rparr>,
               queuedItem ''d''],
      running = 3,
      uploads = [\<lparr>forId = ''a'', aborted = False, call = mockUpload (Some False)\<rparr>,
                 \<lparr>forId = ''b'', aborted = False, call = mockUpload (Some False)\<rparr>,
                 \<lparr>forId = ''c'', aborted = False, call = mockUpload (Some False)\<rparr>]\<rparr>"
  by (simp add: threeUploading_def fourQueued_def pump_def CONCURRENCY_def queuedItem_def)

lemma oneFailed_eq:
  "oneFailed =
     \<lparr>items = [(queuedItem ''a'')\<lparr>abortCtrl := Some 0, status := Error, progress := 99,
                                  error := Some networkErrorMessage\<rparr>,
               (queuedItem ''b'')\<lparr>abortCtrl := Some 1, status := Uploading\<rparr>,
               (queuedItem ''c'')\<lparr>abortCtrl := Some 2, status := Uploading\<rparr>,
               queuedItem ''d''],
      running = 2,
      uploads = [\<lparr>forId = ''a'', aborted = False,
                  call = \<lparr>canceled = False, timer = Cleared, listening = True,
                          promise = Some (Rejected (JsError networkErrorMessage))\<rparr>\<rparr>,
                 \<lparr>forId = ''b'', aborted = False, call = mockUpload (Some False)\<rparr>,
                 \<lparr>forId = ''c'', aborted = False, call = mockUpload (Some False)\<rparr>]\<rparr>"
  by (simp add: oneFailed_def threeUploading_eq Tick_def tick_def mockUpload_def settle_def
        react_def onProgress_def onRejected_def queuedItem_def)

lemma oneDone_eq:
  "oneDone =
     \<lparr>items = [(queuedItem ''a'')\<lparr>abortCtrl := Some 0, status := Error, progress := 99,
                                  error := Some networkErrorMessage\<rparr>,
               (queuedItem ''b'')\<lparr>abortCtrl := Some 1, status := Success, progress := 100,
                                  serverUrl := Some ''blob:b''\<rparr>,
               (queuedItem ''c'')\<lparr>abortCtrl := Some 2, status := Uploading\<rparr>,
               queuedItem ''d''],
      running = 1,
      uploads = [\<lparr>forId = ''a'', aborted = False,
                  call = \<lparr>canceled = False, timer = Cleared, listening = True,
                          promise = Some (Rejected (JsError networkErrorMessage))\<rparr>\<rparr>,
                 \<lparr>forId = ''b'', aborted = False,
                  call = \<lparr>canceled = False, timer = Cleared, listening = True,
                          promise = Some (Resolved ''blob:b'')\<rparr>\<rparr>,
                 \<lparr>forId = ''c'', aborted = False, call = mockUpload (Some False)\<rparr>]\<rparr>"
  by (simp add: oneDone_def oneFailed_eq Tick_def tick_def mockUpload_def settle_def
        react_def onProgress_def onFulfilled_def queuedItem_def)

lemma pushFiles_example:
  "pushFilesWith validateInScope exampleIds exampleIds [png ''a'', png ''b'', png ''c'', png ''d''] [] =
     Inr ([queuedItem ''a'', queuedItem ''b'', queuedItem ''c'', queuedItem ''d''], [])"
  by (simp add: pushFilesWith_def MAX_FILES_def png_def validateInScope_def validateBody_def
        ACCEPT_def MAX_SIZE_BYTES_def exampleIds_def queuedItem_def)

lemma run_example: "run exampleEvents = oneDone"
  by (simp add: run_def exampleEvents_def init_def enqueue_def pushFiles_example oneDone_def
        oneFailed_def threeUploading_def fourQueued_def)

section \<open>Admission in the order of the list\<close>

text \<open>
  C5. \<^verbatim>\<open>pump\<close> admits in the order of the list: when two items are queued and the later
  one is uploading after a call of \<^verbatim>\<open>pump\<close>, the earlier one is uploading too. The call
  stops only when the capacity is used up or no queued item is left.
\<close>

theorem pump_fifo:
  "(i < j \<and> j < length (items s) \<and> status (items s ! i) = Queued \<and>
    status (items s ! j) = Queued \<and> status (items (pump s) ! j) = Uploading
    \<longrightarrow> status (items (pump s) ! i) = Uploading) \<and>
   (running (pump s) < CONCURRENCY \<longrightarrow> (\<forall>it \<in> set (items (pump s)). status it \<noteq> Queued))"
proof (cases "running s \<ge> CONCURRENCY")
  case True
  then show ?thesis by (auto simp: pump_def)
next
  case False
  obtain its' st' r' us' where pl:
    "pump_loop (CONCURRENCY - running s) (items s) (0, running s, uploads s) = (its', st', r', us')"
    by (metis prod_cases4)
  have ps: "pump s = s\<lparr>items := its', running := r', uploads := us'\<rparr>"
    using False pl by (simp add: pump_def)
  have "status (its' ! i) = Uploading"
    if "i < j" "j < length (items s)" "status (items s ! i) = Queued"
       "status (items s ! j) = Queued" "status (its' ! j) = Uploading"
    using pump_loop_fifo[OF pl that] .
  moreover have "\<forall>it \<in> set its'. status it \<noteq> Queued" if "r' < CONCURRENCY"
    using pump_loop_counts[OF pl] that by auto
  ultimately show ?thesis unfolding ps by simp
qed

theorem pump_fifo_witness:
  "(0::nat) < 1 \<and> 1 < length (items fourQueued) \<and> status (items fourQueued ! 0) = Queued \<and>
   status (items fourQueued ! 1) = Queued \<and> status (items (pump fourQueued) ! 1) = Uploading \<and>
   status (items (pump fourQueued) ! 0) = Uploading \<and>
   map status (items (pump fourQueued)) = [Uploading, Uploading, Uploading, Queued] \<and>
   running (pump oneDone) < CONCURRENCY \<and>
   map status (items (pump oneDone)) = [Error, Success, Uploading, Uploading]"
  using pump_fifo[of 0 1 fourQueued] pump_fifo[of 0 1 oneDone]
  by (simp add: fourQueued_def oneDone_eq queuedItem_def pump_def CONCURRENCY_def)

section \<open>Cancellation in the transfer simulator\<close>

text \<open>
  A transfer that was started with a signal that was not aborted: \<^verbatim>\<open>abort()\<close> before it
  settles rejects its promise with the \<^verbatim>\<open>AbortError\<close>, and a later firing of the interval
  calls \<^verbatim>\<open>onProgress\<close> no more.
\<close>

lemma abort_live_transfer:
  assumes "promise m = None" and "listening m" and "timer m \<noteq> Uninitialised"
  shows "promise (dispatchAbort m) = Some (Rejected (DOMException ''Aborted'' ''AbortError''))"
    and "tick raw finished fail url (dispatchAbort m) = ([], dispatchAbort m)"
  using assms by (simp_all add: dispatchAbort_def onAbort_def Let_def settle_def tick_def)

text \<open>
  C2. Cancellation that is signalled before the transfer settles makes it settle as
  cancelled, also when the signal is already aborted at the start. The code does not do
  so for a signal that is aborted at the start: \<^verbatim>\<open>onAbort\<close> runs before the declaration of
  \<^verbatim>\<open>timer\<close> has, \<^verbatim>\<open>clearInterval(timer)\<close> throws a \<^verbatim>\<open>ReferenceError\<close>, and the promise is
  rejected with that error, which the \<^verbatim>\<open>catch\<close> handler of \<^verbatim>\<open>pump\<close> does not take for an
  abort: it records the status error.
\<close>

theorem mockUpload_aborted_signal:
  "promise (mockUpload (Some True)) = Some (Rejected (ReferenceError ''timer'')) \<and>
   \<not> isAbort (ReferenceError ''timer'') \<and>
   map status (onRejected ''a'' (ReferenceError ''timer'')
                 [(queuedItem ''a'')\<lparr>abortCtrl := Some 0, status := Uploading\<rparr>]) = [Error]"
  by (simp add: mockUpload_def onAbort_def settle_def onRejected_def queuedItem_def)

section \<open>Items whose status is success\<close>

text \<open>
  \<^verbatim>\<open>retryItem\<close> does not look at the status: it puts an item whose status is success back
  into the queue.
\<close>

theorem retry_success_counterexample:
  "status (items oneDone ! 1) = Success \<and> item_id (items oneDone ! 1) = ''b'' \<and>
   status (items (step oneDone (RetryItem ''b'')) ! 1) = Queued"
  by (simp add: oneDone_eq queuedItem_def retryItem_def)

text \<open>
  \<^verbatim>\<open>cancelItem\<close> does not look at the status either, where \<^verbatim>\<open>cancelAll\<close> keeps the status
  success; the view offers the cancel button for uploading and queued items only.
\<close>

lemma cancelItem_ignores_status:
  "status (items oneDone ! 1) = Success \<and> \<not> offersCancel (items oneDone ! 1) \<and>
   status (items (cancelItem ''b'' oneDone) ! 1) = Canceled \<and>
   status (items (cancelAll oneDone) ! 1) = Success"
  by (simp add: oneDone_eq queuedItem_def cancelItem_def cancelAll_def abortIfUploading_def
        abort_def dispatchAbort_def onAbort_def settle_def mockUpload_def drain_def react_def
        onRejected_def offersCancel_def)

text \<open>
  C3 (amended). In every state that a run of events reaches, an item whose status is
  success and whose id no other item has keeps the status success under \<^verbatim>\<open>pump\<close>,
  \<^verbatim>\<open>cancelAll\<close>, \<^verbatim>\<open>startAll\<close> and \<^verbatim>\<open>pushFiles\<close>, under \<^verbatim>\<open>cancelItem\<close> and \<^verbatim>\<open>retryItem\<close>
  for another id, and under the firing and the settlement of a transfer that was started
  for another id. \<^verbatim>\<open>retryItem\<close> for its own id has no status guard and makes it queued.
\<close>

theorem success_stays:
  assumes i: "i < length (items (run evs))"
    and su: "status (items (run evs) ! i) = Success"
    and un: "\<forall>j < length (items (run evs)). j \<noteq> i \<longrightarrow>
               item_id (items (run evs) ! j) \<noteq> item_id (items (run evs) ! i)"
  shows "status (items (pump (run evs)) ! i) = Success \<and>
         status (items (cancelAll (run evs)) ! i) = Success \<and>
         status (items (startAll (run evs)) ! i) = Success \<and>
         (\<forall>uid url arr. status (items (step (run evs) (PushFiles uid url arr)) ! i) = Success) \<and>
         (\<forall>j. j \<noteq> item_id (items (run evs) ! i) \<longrightarrow>
              status (items (cancelItem j (run evs)) ! i) = Success \<and>
              status (items (retryItem j (run evs)) ! i) = Success) \<and>
         (\<forall>k raw fin fail url.
              (k < length (uploads (run evs)) \<longrightarrow>
                 forId (uploads (run evs) ! k) \<noteq> item_id (items (run evs) ! i)) \<longrightarrow>
              status (items (Tick k raw fin fail url (run evs)) ! i) = Success) \<and>
         status (items (retryItem (item_id (items (run evs) ! i)) (run evs)) ! i) = Queued"
proof -
  define s where "s = run evs"
  define x where "x = item_id (items s ! i)"
  note i' = i[folded s_def] and su' = su[folded s_def] and un' = un[folded s_def]
  have w: "wired (items s) (uploads s)"
    using inv_run[of evs] by (simp add: inv_def s_def)
  have no_up: "x \<notin> item_id ` {it \<in> set (items s). status it = Uploading}"
  proof
    assume "x \<in> item_id ` {it \<in> set (items s). status it = Uploading}"
    then obtain it where it: "it \<in> set (items s)" "status it = Uploading" "item_id it = x" by auto
    then obtain j where j: "j < length (items s)" "items s ! j = it"
      by (auto simp: in_set_conv_nth)
    with it su' have "j \<noteq> i" by auto
    with un' j it show False by (auto simp: x_def)
  qed
  have p: "status (items (pump s) ! i) = Success"
    using pump_keeps[of i s] i' su' by simp
  have sa: "status (items (startAll s) ! i) = Success"
    using i' su' by (simp add: startAll_def)
  have ca: "status (items (cancelAll s) ! i) = Success"
  proof -
    obtain us' jobs' where
      ev: "evolves (targets (items s)) (uploads s, []) (us', jobs')" and
      st: "settles (targets (items s)) (uploads s, []) (us', jobs')" and
      c: "cancelAll s =
         s\<lparr>items := map (\<lambda>x. if item_id x \<in> (\<lambda>k. forId (us' ! k)) ` set jobs'
                              then x\<lparr>status := Canceled, error := None\<rparr> else x)
                    (map (\<lambda>it. it\<lparr>status := (if status it = Success then status it else Canceled)\<rparr>)
                       (items s)),
           uploads := us', running := running s - int (length jobs')\<rparr>"
      by (rule cancelAll_result)
    have "x \<notin> (\<lambda>k. forId (us' ! k)) ` set jobs'"
      using settled_ids[OF w ev st] no_up by auto
    then show ?thesis
      unfolding c using i' su' by (simp add: x_def)
  qed
  have pf: "status (items (step s (PushFiles uid url arr)) ! i) = Success" for uid url arr
  proof -
    from enqueue_items obtain new where
      "items (enqueue validateInScope uid url arr s) = items s @ new" by blast
    then show ?thesis using i' su' by (simp add: nth_append)
  qed
  have ci: "status (items (cancelItem j s) ! i) = Success" if "j \<noteq> x" for j
  proof -
    let ?its0 = "filter (\<lambda>it. item_id it = j) (items s)"
    obtain us' jobs' where
      ev: "evolves (targets ?its0) (uploads s, []) (us', jobs')" and
      st: "settles (targets ?its0) (uploads s, []) (us', jobs')" and
      c: "cancelItem j s =
         s\<lparr>items := map (\<lambda>x. if item_id x \<in> (\<lambda>k. forId (us' ! k)) ` set jobs'
                              then x\<lparr>status := Canceled, error := None\<rparr> else x)
                    (map (\<lambda>it. if item_id it = j then it\<lparr>status := Canceled\<rparr> else it) (items s)),
           uploads := us', running := running s - int (length jobs')\<rparr>"
      by (rule cancelItem_result)
    have "(\<lambda>k. forId (us' ! k)) ` set jobs' \<subseteq> item_id ` {it \<in> set ?its0. status it = Uploading}"
      by (rule settled_ids[OF w ev st]) simp
    with that have "x \<notin> (\<lambda>k. forId (us' ! k)) ` set jobs'" by auto
    then show ?thesis
      unfolding c using i' su' that by (simp add: x_def)
  qed
  have ri: "status (items (retryItem j s) ! i) = Success" if "j \<noteq> x" for j
    using that i' su' by (simp add: retryItem_def x_def)
  have ti: "status (items (Tick k raw fin fail url s) ! i) = Success"
    if "k < length (uploads s) \<longrightarrow> forId (uploads s ! k) \<noteq> x" for k raw fin fail url
    using Tick_other[OF i', of k raw fin fail url] that su' by (simp add: x_def)
  have rx: "status (items (retryItem x s) ! i) = Queued"
    using i' by (simp add: retryItem_def x_def)
  from p ca sa pf ci ri ti rx show ?thesis
    unfolding s_def[symmetric] x_def[symmetric] by blast
qed

theorem success_stays_witness:
  "1 < length (items (run exampleEvents)) \<and> status (items (run exampleEvents) ! 1) = Success \<and>
   distinct (map item_id (items (run exampleEvents))) \<and>
   status (items (pump (run exampleEvents)) ! 1) = Success \<and>
   status (items (cancelAll (run exampleEvents)) ! 1) = Success \<and>
   status (items (startAll (run exampleEvents)) ! 1) = Success \<and>
   status (items (cancelItem ''c'' (run exampleEvents)) ! 1) = Success \<and>
   status (items (Tick 2 100 True True ''blob:c'' (run exampleEvents)) ! 1) = Success \<and>
   status (items (retryItem ''b'' (run exampleEvents)) ! 1) = Queued"
proof -
  have d: "distinct (map item_id (items (run exampleEvents)))"
    by (simp add: run_example oneDone_eq queuedItem_def)
  have i: "1 < length (items (run exampleEvents))"
    and su: "status (items (run exampleEvents) ! 1) = Success"
    and x: "item_id (items (run exampleEvents) ! 1) = ''b''"
    and k: "forId (uploads (run exampleEvents) ! 2) = ''c''"
    by (simp_all add: run_example oneDone_eq queuedItem_def)
  have un: "\<forall>j < length (items (run exampleEvents)). j \<noteq> 1 \<longrightarrow>
              item_id (items (run exampleEvents) ! j) \<noteq> item_id (items (run exampleEvents) ! 1)"
    using d i by (auto simp: distinct_conv_nth)
  from success_stays[OF i su un] x k d i su show ?thesis
    by simp
qed

section \<open>Retry\<close>

text \<open>\<^verbatim>\<open>retryItem\<close> on an item that is uploading is not a no-op.\<close>

theorem retry_uploading_counterexample:
  "status (items threeUploading ! 0) = Uploading \<and>
   item_id (items threeUploading ! 0) = ''a'' \<and>
   \<not> (status (items (retryItem ''a'' threeUploading) ! 0) = status (items threeUploading ! 0))"
  by (simp add: threeUploading_eq queuedItem_def retryItem_def)

text \<open>
  C4 (amended). \<^verbatim>\<open>retryItem\<close> has no status guard: whatever the status of the item with
  the given id, it sets the status queued, the progress 0 and no error, and it leaves the
  store of transfers and the counter as they are. The guard is the view's: the retry
  button is rendered for items whose status is error only.
\<close>

theorem retry_unguarded:
  assumes "i < length (items s)" and "item_id (items s ! i) = x"
  shows "items (retryItem x s) ! i = (items s ! i)\<lparr>status := Queued, progress := 0, error := None\<rparr> \<and>
         uploads (retryItem x s) = uploads s \<and> running (retryItem x s) = running s \<and>
         (offersRetry (items s ! i) \<longleftrightarrow> status (items s ! i) = Error)"
  using assms by (simp add: retryItem_def offersRetry_def)

theorem retry_unguarded_witness:
  "1 < length (items oneDone) \<and> item_id (items oneDone ! 1) = ''b'' \<and>
   status (items oneDone ! 1) = Success \<and> \<not> offersRetry (items oneDone ! 1) \<and>
   status (items (retryItem ''b'' oneDone) ! 1) = Queued \<and>
   progress (items (retryItem ''b'' oneDone) ! 1) = 0"
  using retry_unguarded[of 1 oneDone "''b''"]
  by (simp add: oneDone_eq queuedItem_def)

text \<open>
  C7. After \<^verbatim>\<open>retryItem\<close> on an item whose status is error the item is queued, its
  progress is 0 and it has no error; the items with another id are unchanged; and the
  next \<^verbatim>\<open>pump\<close> admits the item when the capacity reaches it, that is when the counter
  plus the number of queued items in front of it is below the limit.
\<close>

theorem retry_resets:
  assumes "i < length (items s)" and "item_id (items s ! i) = x" and "status (items s ! i) = Error"
  shows "items (retryItem x s) ! i = (items s ! i)\<lparr>status := Queued, progress := 0, error := None\<rparr> \<and>
         length (items (retryItem x s)) = length (items s) \<and>
         (\<forall>j < length (items s). item_id (items s ! j) \<noteq> x \<longrightarrow> items (retryItem x s) ! j = items s ! j) \<and>
         (running (retryItem x s) + int (queued_before i (items (retryItem x s))) < CONCURRENCY
            \<longrightarrow> status (items (pump (retryItem x s)) ! i) = Uploading)"
proof -
  have a: "items (retryItem x s) ! i = (items s ! i)\<lparr>status := Queued, progress := 0, error := None\<rparr>"
    using assms(1,2) by (simp add: retryItem_def)
  have l: "length (items (retryItem x s)) = length (items s)"
    by (simp add: retryItem_def)
  have o: "\<forall>j < length (items s). item_id (items s ! j) \<noteq> x \<longrightarrow> items (retryItem x s) ! j = items s ! j"
    by (simp add: retryItem_def)
  have "status (items (pump (retryItem x s)) ! i) = Uploading"
    if "running (retryItem x s) + int (queued_before i (items (retryItem x s))) < CONCURRENCY"
    by (rule pump_admits) (use that a l assms(1) in simp_all)
  with a l o show ?thesis by blast
qed

theorem retry_resets_witness:
  "0 < length (items oneFailed) \<and> item_id (items oneFailed ! 0) = ''a'' \<and>
   status (items oneFailed ! 0) = Error \<and> error (items oneFailed ! 0) = Some networkErrorMessage \<and>
   status (items (retryItem ''a'' oneFailed) ! 0) = Queued \<and>
   progress (items (retryItem ''a'' oneFailed) ! 0) = 0 \<and>
   error (items (retryItem ''a'' oneFailed) ! 0) = None \<and>
   running (retryItem ''a'' oneFailed) + int (queued_before 0 (items (retryItem ''a'' oneFailed))) < CONCURRENCY \<and>
   status (items (pump (retryItem ''a'' oneFailed)) ! 0) = Uploading"
  using retry_resets[of 0 oneFailed "''a''"]
  by (simp add: oneFailed_eq queuedItem_def retryItem_def queued_before_def CONCURRENCY_def)

section \<open>Cancelling\<close>

text \<open>
  Parked items stay parked under every event that is quiet for their id: no such event
  starts a transfer for the id or writes to an item with the id.
\<close>

lemma map_keeps:
  assumes "\<And>it. item_id (f it) = item_id it"
    and "\<And>it. it \<in> set its \<Longrightarrow> item_id it = x \<Longrightarrow> f it = it"
    and "it' \<in> set (map f its)" and "item_id it' = x"
  shows "it' \<in> set its"
proof -
  from assms(3) obtain it where it: "it \<in> set its" "it' = f it" by auto
  with assms(1,4) have "item_id it = x" by simp
  with assms(2) it show ?thesis by simp
qed

lemma parked_map:
  assumes p: "parked x base t"
    and f: "\<And>it. item_id (f it) = item_id it"
           "\<And>it. it \<in> set (items t) \<Longrightarrow> item_id it = x \<Longrightarrow> f it = it"
    and u: "forId ` set us' = forId ` set (uploads t)"
  shows "parked x base (t\<lparr>items := map f (items t), uploads := us', running := r\<rparr>)"
proof -
  have "it' \<in> set (items t)" if "it' \<in> set (map f (items t))" "item_id it' = x" for it'
    using map_keeps[of f "items t" x it'] f that by blast
  with p u show ?thesis by (auto simp: parked_def)
qed

lemma parked_onProgress:
  "parked x base t \<Longrightarrow> a \<noteq> x \<Longrightarrow> parked x base (t\<lparr>items := onProgress a p (items t)\<rparr>)"
  using parked_map[of x base t "\<lambda>it. if item_id it = a then it\<lparr>progress := p\<rparr> else it"
      "uploads t" "running t"]
  by (simp add: onProgress_def)

lemma parked_react: assumes "parked x base t" shows "parked x base (react k t)"
proof (cases "k < length (uploads t)")
  case False
  with assms show ?thesis by (simp add: react_def)
next
  case True
  then have ne: "forId (uploads t ! k) \<noteq> x"
    using assms by (auto simp: parked_def)
  show ?thesis
  proof (cases "promise (call (uploads t ! k))")
    case None
    with True assms show ?thesis by (simp add: react_def)
  next
    case (Some v)
    show ?thesis
    proof (cases v)
      case (Resolved url)
      with Some True ne
        parked_map[OF assms, of "\<lambda>it. if item_id it = forId (uploads t ! k)
            then it\<lparr>status := Success, serverUrl := Some url, progress := 100\<rparr> else it"
          "uploads t" "running t - 1"]
      show ?thesis by (simp add: react_def onFulfilled_def)
    next
      case (Rejected e)
      with Some True ne
        parked_map[OF assms, of "\<lambda>it. if item_id it = forId (uploads t ! k)
            then it\<lparr>status := (if isAbort e then Canceled else Error),
                    error := (if isAbort e then None else Some (message e))\<rparr> else it"
          "uploads t" "running t - 1"]
      show ?thesis by (simp add: react_def onRejected_def)
    qed
  qed
qed

lemma parked_store:
  "parked x base t \<Longrightarrow> forId ` set us' = forId ` set (uploads t) \<Longrightarrow>
   parked x base (t\<lparr>uploads := us'\<rparr>)"
  by (simp add: parked_def)

lemma parked_progress_calls:
  "parked x base t \<Longrightarrow> a \<noteq> x \<Longrightarrow>
   parked x base (t\<lparr>items := foldl (\<lambda>cur p. onProgress a p cur) (items t) calls\<rparr>)"
proof (induction calls arbitrary: t)
  case Nil
  then show ?case by simp
next
  case (Cons p calls)
  from Cons(1)[OF parked_onProgress[OF Cons(2,3)] Cons(3)] show ?case by simp
qed

lemma forId_update:
  "k < length us \<Longrightarrow> forId u' = forId (us ! k) \<Longrightarrow> map forId (us[k := u']) = map forId us"
  by (simp add: map_update list_update_same_conv)

lemma parked_Tick: assumes "parked x base t" shows "parked x base (Tick k raw fin fail url t)"
proof (cases "k < length (uploads t)")
  case False
  with assms show ?thesis by (simp add: Tick_def)
next
  case k: True
  define u where "u = uploads t ! k"
  obtain calls c where tk: "tick raw fin fail url (call u) = (calls, c)"
    by (cases "tick raw fin fail url (call u)") auto
  define t1 where "t1 = t\<lparr>items := foldl (\<lambda>cur p. onProgress (forId u) p cur) (items t) calls,
                            uploads := (uploads t)[k := u\<lparr>call := c\<rparr>]\<rparr>"
  have T: "Tick k raw fin fail url t =
             (if promise (call u) = None \<and> promise c \<noteq> None then react k t1 else t1)"
    using k tk by (simp add: Tick_def Let_def u_def t1_def)
  have ne: "forId u \<noteq> x" using assms k by (auto simp: parked_def u_def)
  have "map forId ((uploads t)[k := u\<lparr>call := c\<rparr>]) = map forId (uploads t)"
    by (rule forId_update) (use k in \<open>simp_all add: u_def\<close>)
  then have "forId ` set ((uploads t)[k := u\<lparr>call := c\<rparr>]) = forId ` set (uploads t)"
    by (metis set_map)
  with parked_store[OF parked_progress_calls[OF assms ne, of calls]]
  have p1: "parked x base t1" by (simp add: t1_def)
  then have "parked x base (react k t1)" by (rule parked_react)
  with p1 show ?thesis unfolding T by simp
qed

lemma pump_loop_parked:
  "pump_loop av its (st, r, us) = (its', st', r', us') \<Longrightarrow> x \<notin> forId ` set us \<Longrightarrow>
   (\<forall>it \<in> set its. item_id it = x \<longrightarrow> status it \<noteq> Queued) \<Longrightarrow>
   x \<notin> forId ` set us' \<and> (\<forall>it' \<in> set its'. item_id it' = x \<longrightarrow> it' \<in> set its)"
proof (induction av its "(st, r, us)" arbitrary: st r us its' st' r' us' rule: pump_loop.induct)
  case (1 available)
  then show ?case by simp
next
  case (2 available it rest started run us)
  show ?case
  proof (cases "started < available")
    case False
    with 2(3,4) show ?thesis by auto
  next
    case lt: True
    show ?thesis
    proof (cases "status it = Queued")
      case True
      let ?u = "\<lparr>forId = item_id it, aborted = False, call = mockUpload (Some False)\<rparr>"
      obtain rest' where r: "pump_loop available rest (started + 1, run + 1, us @ [?u]) = (rest', st', r', us')"
        and i: "its' = it\<lparr>abortCtrl := Some (length us), status := Uploading\<rparr> # rest'"
        using 2(3) lt True by (auto split: prod.splits)
      have nx: "item_id it \<noteq> x" using 2(5) True by auto
      with 2(4) have "x \<notin> forId ` set (us @ [?u])" by auto
      from 2(1)[OF lt True refl refl refl r this] 2(5) i nx show ?thesis by auto
    next
      case False
      obtain rest' where r: "pump_loop available rest (started, run, us) = (rest', st', r', us')"
        and i: "its' = it # rest'"
        using 2(3) lt False by (auto split: prod.splits)
      from 2(2)[OF lt False r 2(4)] 2(5) i show ?thesis by auto
    qed
  qed
qed

lemma parked_pump: assumes "parked x base t" shows "parked x base (pump t)"
proof (cases "running t \<ge> CONCURRENCY")
  case True
  with assms show ?thesis by (simp add: pump_def)
next
  case False
  obtain its' st' r' us' where pl:
    "pump_loop (CONCURRENCY - running t) (items t) (0, running t, uploads t) = (its', st', r', us')"
    by (metis prod_cases4)
  have ps: "pump t = t\<lparr>items := its', running := r', uploads := us'\<rparr>"
    using False pl by (simp add: pump_def)
  from pump_loop_parked[OF pl, of x] assms show ?thesis
    unfolding ps by (auto simp: parked_def)
qed

lemma evolves_forId:
  assumes "evolves K (us, jobs) (us', jobs')"
  shows "map forId us' = map forId us"
  using assms by (intro nth_equalityI) (simp_all add: evolves_def)

lemma parked_cancel_result:
  assumes p: "parked x base t"
    and ev: "evolves K (uploads t, []) (us', jobs')"
    and st: "settles K (uploads t, []) (us', jobs')"
    and f: "\<And>it. item_id (f it) = item_id it"
           "\<And>it. it \<in> set (items t) \<Longrightarrow> item_id it = x \<Longrightarrow> f it = it"
  shows "parked x base
           (t\<lparr>items := map (\<lambda>it. if item_id it \<in> (\<lambda>k. forId (us' ! k)) ` set jobs'
                                   then it\<lparr>status := Canceled, error := None\<rparr> else it)
                          (map f (items t)),
              uploads := us', running := r\<rparr>)"
proof -
  have m: "map forId us' = map forId (uploads t)" by (rule evolves_forId[OF ev])
  then have u: "forId ` set us' = forId ` set (uploads t)" by (metis set_map)
  have "rejectedJobs (us', jobs')" using st by (simp add: settles_def rejectedJobs_def)
  then have "\<forall>k \<in> set jobs'. k < length us'" by (simp add: rejectedJobs_def)
  then have "(\<lambda>k. forId (us' ! k)) ` set jobs' \<subseteq> forId ` set us'" by auto
  with u p have nj: "x \<notin> (\<lambda>k. forId (us' ! k)) ` set jobs'" by (auto simp: parked_def)
  let ?g = "\<lambda>it. if item_id it \<in> (\<lambda>k. forId (us' ! k)) ` set jobs'
                  then it\<lparr>status := Canceled, error := None\<rparr> else it"
  have "parked x base (t\<lparr>items := map (?g \<circ> f) (items t), uploads := us', running := r\<rparr>)"
    by (rule parked_map[OF p _ _ u]) (use f nj in auto)
  then show ?thesis by simp
qed

lemma parked_cancelItem: assumes "parked x base t" shows "parked x base (cancelItem j t)"
proof -
  let ?K = "targets (filter (\<lambda>it. item_id it = j) (items t))"
  obtain us' jobs' where
    ev: "evolves ?K (uploads t, []) (us', jobs')" and
    st: "settles ?K (uploads t, []) (us', jobs')" and
    c: "cancelItem j t =
       t\<lparr>items := map (\<lambda>x. if item_id x \<in> (\<lambda>k. forId (us' ! k)) ` set jobs'
                            then x\<lparr>status := Canceled, error := None\<rparr> else x)
                  (map (\<lambda>it. if item_id it = j then it\<lparr>status := Canceled\<rparr> else it) (items t)),
         uploads := us', running := running t - int (length jobs')\<rparr>"
    by (rule cancelItem_result)
  show ?thesis
    unfolding c
    by (rule parked_cancel_result[OF assms ev st]) (use assms in \<open>auto simp: parked_def\<close>)
qed

lemma parked_cancelAll: assumes "parked x base t" shows "parked x base (cancelAll t)"
proof -
  obtain us' jobs' where
    ev: "evolves (targets (items t)) (uploads t, []) (us', jobs')" and
    st: "settles (targets (items t)) (uploads t, []) (us', jobs')" and
    c: "cancelAll t =
       t\<lparr>items := map (\<lambda>x. if item_id x \<in> (\<lambda>k. forId (us' ! k)) ` set jobs'
                            then x\<lparr>status := Canceled, error := None\<rparr> else x)
                  (map (\<lambda>it. it\<lparr>status := (if status it = Success then status it else Canceled)\<rparr>)
                     (items t)),
         uploads := us', running := running t - int (length jobs')\<rparr>"
    by (rule cancelAll_result)
  show ?thesis
    unfolding c
    by (rule parked_cancel_result[OF assms ev st]) (use assms in \<open>auto simp: parked_def\<close>)
qed

lemma parked_step: assumes "parked x base t" and "quiet x e" shows "parked x base (step t e)"
proof (cases e)
  case (PushFiles uid url arr)
  from enqueue_items obtain new where
    n: "items (enqueue validateInScope uid url arr t) = items t @ new"
       "\<forall>it \<in> set new. status it = Queued \<and> item_id it \<in> uid ` {..<length arr}"
    by blast
  have "x \<notin> uid ` {..<length arr}"
    using assms(2) PushFiles by (simp add: atLeast0LessThan)
  with n(2) have "\<forall>it \<in> set new. item_id it \<noteq> x" by auto
  with assms(1) n(1) PushFiles show ?thesis by (auto simp: parked_def)
next
  case (CancelItem j)
  with assms(1) show ?thesis by (simp add: parked_cancelItem)
next
  case (RetryItem j)
  with assms(2) have "j \<noteq> x" by simp
  with parked_map[OF assms(1), of "\<lambda>it. if item_id it = j
      then it\<lparr>status := Queued, progress := 0, error := None\<rparr> else it" "uploads t" "running t"]
    RetryItem show ?thesis by (simp add: retryItem_def)
next
  case (RemoveItem j)
  with assms(1) show ?thesis by (auto simp: parked_def removeItem_def)
next
  case StartAll
  with assms(2) show ?thesis by simp
next
  case CancelAll
  with assms(1) show ?thesis by (simp add: parked_cancelAll)
next
  case Pump
  with assms(1) show ?thesis by (simp add: parked_pump)
next
  case (Timer k raw fin fail url)
  with assms(1) show ?thesis by (simp add: parked_Tick)
qed

lemma parked_steps:
  "parked x base t \<Longrightarrow> \<forall>e \<in> set evs. quiet x e \<Longrightarrow> parked x base (foldl step t evs)"
  by (induction evs arbitrary: t) (simp_all add: parked_step)

text \<open>
  C8. An item that is queued and for whose id the transfer simulator has not been called
  (no transfer of the store was started for the id): \<^verbatim>\<open>cancelItem\<close> makes it canceled at
  once and changes no other field of it, so it keeps the progress it had and gets no
  controller; the store holds the same transfers as before, none is added; and a
  \<^verbatim>\<open>pump\<close> that follows leaves the item as it is. From then on, through every sequence of
  events that does not put the id back into the queue (no retry for it, no \<^verbatim>\<open>startAll\<close>,
  no enqueue that reuses the id), no transfer is ever started for the id, and every item
  with the id is canceled and is, field by field, as the cancellation left it: no
  progress and no result is recorded for it.
\<close>

theorem cancel_queued:
  assumes "i < length (items s)" and "item_id (items s ! i) = x" and "status (items s ! i) = Queued"
    and "x \<notin> forId ` set (uploads s)"
    and "\<forall>e \<in> set evs. quiet x e"
  shows "items (cancelItem x s) ! i = (items s ! i)\<lparr>status := Canceled\<rparr> \<and>
         map forId (uploads (cancelItem x s)) = map forId (uploads s) \<and>
         items (pump (cancelItem x s)) ! i = items (cancelItem x s) ! i \<and>
         x \<notin> forId ` set (uploads (foldl step (cancelItem x s) evs)) \<and>
         (\<forall>it \<in> set (items (foldl step (cancelItem x s) evs)).
            item_id it = x \<longrightarrow> status it = Canceled \<and> it \<in> set (items (cancelItem x s)))"
proof -
  let ?K = "targets (filter (\<lambda>it. item_id it = x) (items s))"
  obtain us' jobs' where
    ev: "evolves ?K (uploads s, []) (us', jobs')" and
    st: "settles ?K (uploads s, []) (us', jobs')" and
    c: "cancelItem x s =
       s\<lparr>items := map (\<lambda>it. if item_id it \<in> (\<lambda>k. forId (us' ! k)) ` set jobs'
                            then it\<lparr>status := Canceled, error := None\<rparr> else it)
                  (map (\<lambda>it. if item_id it = x then it\<lparr>status := Canceled\<rparr> else it) (items s)),
         uploads := us', running := running s - int (length jobs')\<rparr>"
    by (rule cancelItem_result)
  have m: "map forId us' = map forId (uploads s)" by (rule evolves_forId[OF ev])
  then have u: "forId ` set us' = forId ` set (uploads s)" by (metis set_map)
  have "rejectedJobs (us', jobs')" using st by (simp add: settles_def rejectedJobs_def)
  then have "\<forall>k \<in> set jobs'. k < length us'" by (simp add: rejectedJobs_def)
  then have "(\<lambda>k. forId (us' ! k)) ` set jobs' \<subseteq> forId ` set us'" by auto
  with u assms(4) have nj: "x \<notin> (\<lambda>k. forId (us' ! k)) ` set jobs'" by auto
  have a: "items (cancelItem x s) ! i = (items s ! i)\<lparr>status := Canceled\<rparr>"
    unfolding c using assms(1,2) nj by simp
  have l: "length (items (cancelItem x s)) = length (items s)"
    unfolding c by simp
  have p: "items (pump (cancelItem x s)) ! i = items (cancelItem x s) ! i"
    by (rule pump_keeps) (use a l assms(1) in simp_all)
  have "parked x (items (cancelItem x s)) (cancelItem x s)"
    unfolding parked_def
  proof (intro conjI ballI impI)
    show "x \<notin> forId ` set (uploads (cancelItem x s))"
      unfolding c using u assms(4) by simp
  next
    fix it assume m: "it \<in> set (items (cancelItem x s))" and ix: "item_id it = x"
    let ?f = "\<lambda>it. if item_id it = x then it\<lparr>status := Canceled\<rparr> else it"
    let ?g = "\<lambda>it. if item_id it \<in> (\<lambda>k. forId (us' ! k)) ` set jobs'
                    then it\<lparr>status := Canceled, error := None\<rparr> else it"
    have "items (cancelItem x s) = map (\<lambda>y. ?g (?f y)) (items s)"
      by (simp add: c o_def)
    with m have "it \<in> (\<lambda>y. ?g (?f y)) ` set (items s)"
      by (simp only: set_map)
    then obtain y where y: "it = ?g (?f y)" by (rule imageE)
    have "item_id (?g (?f y)) = item_id y" by simp
    with y ix have "item_id y = x" by simp
    then have "?g (?f y) = y\<lparr>status := Canceled\<rparr>" using nj by simp
    with y show "status it = Canceled" by simp
  qed
  from parked_steps[OF this assms(5)]
  have t: "x \<notin> forId ` set (uploads (foldl step (cancelItem x s) evs))"
    "\<forall>it \<in> set (items (foldl step (cancelItem x s) evs)).
       item_id it = x \<longrightarrow> status it = Canceled \<and> it \<in> set (items (cancelItem x s))"
    by (simp_all add: parked_def)
  have "map forId (uploads (cancelItem x s)) = map forId (uploads s)"
    unfolding c using m by simp
  with a p t show ?thesis by blast
qed

lemma cancelled_d:
  "cancelItem ''d'' threeUploading =
     \<lparr>items = [(queuedItem ''a'')\<lparr>abortCtrl := Some 0, status := Uploading\<rparr>,
               (queuedItem ''b'')\<lparr>abortCtrl := Some 1, status := Uploading\<rparr>,
               (queuedItem ''c'')\<lparr>abortCtrl := Some 2, status := Uploading\<rparr>,
               (queuedItem ''d'')\<lparr>status := Canceled\<rparr>],
      running = 3,
      uploads = [\<lparr>forId = ''a'', aborted = False, call = mockUpload (Some False)\<rparr>,
                 \<lparr>forId = ''b'', aborted = False, call = mockUpload (Some False)\<rparr>,
                 \<lparr>forId = ''c'', aborted = False, call = mockUpload (Some False)\<rparr>]\<rparr>"
  by (simp add: threeUploading_eq cancelItem_def abortIfUploading_def drain_def queuedItem_def)

lemma quiet_run_1:
  "pump (Tick 0 100 True False ''blob:a'' (Tick 0 50 False False ''blob:a''
     (pump (cancelItem ''d'' threeUploading)))) =
     \<lparr>items = [(queuedItem ''a'')\<lparr>abortCtrl := Some 0, status := Success, progress := 100,
                                  serverUrl := Some ''blob:a''\<rparr>,
               (queuedItem ''b'')\<lparr>abortCtrl := Some 1, status := Uploading\<rparr>,
               (queuedItem ''c'')\<lparr>abortCtrl := Some 2, status := Uploading\<rparr>,
               (queuedItem ''d'')\<lparr>status := Canceled\<rparr>],
      running = 2,
      uploads = [\<lparr>forId = ''a'', aborted = False,
                  call = \<lparr>canceled = False, timer = Cleared, listening = True,
                          promise = Some (Resolved ''blob:a'')\<rparr>\<rparr>,
                 \<lparr>forId = ''b'', aborted = False, call = mockUpload (Some False)\<rparr>,
                 \<lparr>forId = ''c'', aborted = False, call = mockUpload (Some False)\<rparr>]\<rparr>"
  by (simp add: cancelled_d queuedItem_def pump_def CONCURRENCY_def
        Tick_def tick_def mockUpload_def settle_def react_def onProgress_def onFulfilled_def)

lemma quiet_run_example:
  "map (\<lambda>it. (item_id it, status it, progress it, abortCtrl it))
     (items (foldl step (cancelItem ''d'' threeUploading) quietEvents)) =
   [(''a'', Success, 100, Some 0), (''b'', Canceled, 0, Some 1), (''c'', Uploading, 0, Some 2),
    (''d'', Canceled, 0, None)]"
proof -
  have "foldl step (cancelItem ''d'' threeUploading) quietEvents =
      cancelItem ''b'' (pump (Tick 0 100 True False ''blob:a'' (Tick 0 50 False False ''blob:a''
        (pump (cancelItem ''d'' threeUploading)))))"
    by (simp add: quietEvents_def)
  then show ?thesis
    unfolding quiet_run_1
    by (simp add: queuedItem_def cancelItem_def abortIfUploading_def abort_def dispatchAbort_def
          onAbort_def settle_def mockUpload_def drain_def react_def onRejected_def)
qed

theorem cancel_queued_witness:
  "3 < length (items threeUploading) \<and> item_id (items threeUploading ! 3) = ''d'' \<and>
   status (items threeUploading ! 3) = Queued \<and>
   ''d'' \<notin> forId ` set (uploads threeUploading) \<and> list_all (quiet ''d'') quietEvents \<and>
   status (items (cancelItem ''d'' threeUploading) ! 3) = Canceled \<and>
   abortCtrl (items (cancelItem ''d'' threeUploading) ! 3) = None \<and>
   progress (items (cancelItem ''d'' threeUploading) ! 3) = 0 \<and>
   map forId (uploads (cancelItem ''d'' threeUploading)) = [''a'', ''b'', ''c''] \<and>
   status (items (pump (cancelItem ''d'' threeUploading)) ! 3) = Canceled \<and>
   ''d'' \<notin> forId ` set (uploads (foldl step (cancelItem ''d'' threeUploading) quietEvents)) \<and>
   map (\<lambda>it. (item_id it, status it, progress it, abortCtrl it))
     (items (foldl step (cancelItem ''d'' threeUploading) quietEvents)) =
   [(''a'', Success, 100, Some 0), (''b'', Canceled, 0, Some 1), (''c'', Uploading, 0, Some 2),
    (''d'', Canceled, 0, None)]"
proof -
  have h: "3 < length (items threeUploading)" "item_id (items threeUploading ! 3) = ''d''"
    "status (items threeUploading ! 3) = Queued" "''d'' \<notin> forId ` set (uploads threeUploading)"
    by (simp_all add: threeUploading_eq queuedItem_def)
  have q: "list_all (quiet ''d'') quietEvents"
    by (simp add: quietEvents_def)
  then have q': "\<forall>e \<in> set quietEvents. quiet ''d'' e"
    by (simp add: list_all_iff)
  from cancel_queued[OF h q'] h q quiet_run_example show ?thesis
    by (simp add: threeUploading_eq queuedItem_def)
qed


text \<open>
  C9. When the transfer of an item settles with the simulated failure, the status of the
  item becomes error and its error the message of the failure; when \<^verbatim>\<open>cancelItem\<close>
  aborts the transfer of an uploading item, the transfer is rejected with the
  \<^verbatim>\<open>AbortError\<close>, the status becomes canceled and the item has no error. Both outcomes
  are states of the queue: the commands and the reactions return a state and throw
  nothing.
\<close>

theorem settle_outcomes:
  "(k < length (uploads s) \<and> promise (call (uploads s ! k)) = None \<and>
    timer (call (uploads s ! k)) = Active \<and> \<not> canceled (call (uploads s ! k)) \<and>
    i < length (items s) \<and> item_id (items s ! i) = forId (uploads s ! k)
    \<longrightarrow> status (items (Tick k raw True True url s) ! i) = Error \<and>
        error (items (Tick k raw True True url s) ! i) = Some networkErrorMessage \<and>
        running (Tick k raw True True url s) = running s - 1) \<and>
   (i < length (items s) \<and> status (items s ! i) = Uploading \<and> abortCtrl (items s ! i) = Some k \<and>
    armed (uploads s) k \<and> forId (uploads s ! k) = item_id (items s ! i)
    \<longrightarrow> status (items (cancelItem (item_id (items s ! i)) s) ! i) = Canceled \<and>
        error (items (cancelItem (item_id (items s ! i)) s) ! i) = None \<and>
        promise (call (uploads (cancelItem (item_id (items s ! i)) s) ! k)) =
          Some (Rejected (DOMException ''Aborted'' ''AbortError'')))"
proof (intro conjI impI)
  assume a: "k < length (uploads s) \<and> promise (call (uploads s ! k)) = None \<and>
    timer (call (uploads s ! k)) = Active \<and> \<not> canceled (call (uploads s ! k)) \<and>
    i < length (items s) \<and> item_id (items s ! i) = forId (uploads s ! k)"
  then have T: "Tick k raw True True url s =
           s\<lparr>items := onRejected (forId (uploads s ! k)) (JsError networkErrorMessage)
                        (onProgress (forId (uploads s ! k)) (min 99 raw) (items s)),
             uploads := (uploads s)[k := (uploads s ! k)\<lparr>call := (call (uploads s ! k))
                           \<lparr>timer := Cleared, promise := Some (Rejected (JsError networkErrorMessage))\<rparr>\<rparr>],
             running := running s - 1\<rparr>"
    by (intro Tick_failure) simp_all
  from a show "status (items (Tick k raw True True url s) ! i) = Error"
    "error (items (Tick k raw True True url s) ! i) = Some networkErrorMessage"
    "running (Tick k raw True True url s) = running s - 1"
    unfolding T by (simp_all add: onRejected_def onProgress_def)
next
  let ?x = "item_id (items s ! i)"
  assume b: "i < length (items s) \<and> status (items s ! i) = Uploading \<and> abortCtrl (items s ! i) = Some k \<and>
    armed (uploads s) k \<and> forId (uploads s ! k) = item_id (items s ! i)"
  obtain us' jobs' where
    h: "snd (cancelItem_map ?x (items s) (uploads s, [])) = (us', jobs')" and
    ev: "evolves (targets (filter (\<lambda>it. item_id it = ?x) (items s))) (uploads s, []) (us', jobs')" and
    st: "settles (targets (filter (\<lambda>it. item_id it = ?x) (items s))) (uploads s, []) (us', jobs')" and
    c: "cancelItem ?x s =
       s\<lparr>items := map (\<lambda>x. if item_id x \<in> (\<lambda>k. forId (us' ! k)) ` set jobs'
                            then x\<lparr>status := Canceled, error := None\<rparr> else x)
                  (map (\<lambda>it. if item_id it = ?x then it\<lparr>status := Canceled\<rparr> else it) (items s)),
         uploads := us', running := running s - int (length jobs')\<rparr>"
    by (rule cancelItem_result)
  have "\<exists>it \<in> set (items s). item_id it = ?x \<and> status it = Uploading \<and> abortCtrl it = Some k"
    using b by (auto intro!: bexI[of _ "items s ! i"])
  with cancelItem_map_job[of k "(uploads s, [])" "items s" ?x] b h
  have kj: "k \<in> set jobs'" by simp
  have kl: "k < length (uploads s)" using b by (simp add: armed_def)
  have f: "forId (us' ! k) = ?x"
    using ev kl b by (simp add: evolves_def)
  have rj: "rejectedJobs (us', jobs')"
    using st by (simp add: settles_def rejectedJobs_def)
  have in_J: "?x \<in> (\<lambda>k. forId (us' ! k)) ` set jobs'"
    using kj f by force
  show "status (items (cancelItem ?x s) ! i) = Canceled"
    "error (items (cancelItem ?x s) ! i) = None"
    unfolding c using b in_J by simp_all
  show "promise (call (uploads (cancelItem ?x s) ! k)) =
          Some (Rejected (DOMException ''Aborted'' ''AbortError''))"
    unfolding c using rj kj by (simp add: rejectedJobs_def)
qed

theorem settle_outcomes_witness:
  "(0 < length (uploads threeUploading) \<and> promise (call (uploads threeUploading ! 0)) = None \<and>
    timer (call (uploads threeUploading ! 0)) = Active \<and> \<not> canceled (call (uploads threeUploading ! 0)) \<and>
    0 < length (items threeUploading) \<and> item_id (items threeUploading ! 0) = forId (uploads threeUploading ! 0)) \<and>
   status (items (Tick 0 57 True True ''blob:a'' threeUploading) ! 0) = Error \<and>
   error (items (Tick 0 57 True True ''blob:a'' threeUploading) ! 0) = Some networkErrorMessage \<and>
   (1 < length (items threeUploading) \<and> status (items threeUploading ! 1) = Uploading \<and>
    abortCtrl (items threeUploading ! 1) = Some 1 \<and> armed (uploads threeUploading) 1 \<and>
    forId (uploads threeUploading ! 1) = item_id (items threeUploading ! 1)) \<and>
   status (items (cancelItem ''b'' threeUploading) ! 1) = Canceled \<and>
   error (items (cancelItem ''b'' threeUploading) ! 1) = None"
  using settle_outcomes[of 0 threeUploading 0 57 "''blob:a''"]
        settle_outcomes[of 1 threeUploading 1 57 "''blob:a''"]
  by (simp add: threeUploading_eq queuedItem_def armed_def mockUpload_def)

section \<open>The cap and the duplicate filter of pushFiles\<close>

text \<open>
  C10. The updater of \<^verbatim>\<open>pushFiles\<close> keeps the items that exist and looks only at the first
  \<^verbatim>\<open>MAX_FILES - length\<close> files, and of these only at those that do not equal the file of
  an existing item in name, size and \<^verbatim>\<open>lastModified\<close>. The files behind the cap and the
  duplicates change nothing: with or without them the updater returns the same list and
  the same errors, or throws the same exception. This holds whatever the validation
  does. When the updater returns, the new items are the valid ones of the files that it
  looked at, the errors are about the others, and a list of at most \<^verbatim>\<open>MAX_FILES\<close> items
  has at most \<^verbatim>\<open>MAX_FILES\<close> items afterwards. With the \<^verbatim>\<open>validateFile\<close> of \<^verbatim>\<open>utils.ts\<close> the
  updater returns the list unchanged when no file is left to look at and throws
  otherwise. Every state that a run of events reaches has at most \<^verbatim>\<open>MAX_FILES\<close>, which
  is 10, items.
\<close>

theorem pushFiles_cap_and_duplicates:
  "(let pick = take (MAX_FILES - length prev) arr;
        kept = filter (\<lambda>f. \<not> (\<exists>x \<in> set prev. isDuplicate f (item_file x))) pick
    in pushFilesWith v uid url arr prev = pushFilesWith v uid url kept prev \<and>
       (\<forall>next errors. pushFilesWith v uid url arr prev = Inr (next, errors) \<longrightarrow>
          take (length prev) next = prev \<and>
          map item_file (drop (length prev) next) = filter (\<lambda>f. v f = Inr None) kept \<and>
          map fst errors = map file_name (filter (\<lambda>f. v f \<noteq> Inr None) kept) \<and>
          (length prev \<le> MAX_FILES \<longrightarrow> length next \<le> MAX_FILES)) \<and>
       pushFiles uid url arr prev =
         (if kept = [] then Inr (prev, []) else Inl (NotDefined ''ACCEPT''))) \<and>
   MAX_FILES = 10 \<and> length (items (run evs)) \<le> MAX_FILES"
proof -
  have "MAX_FILES = 10" by (simp add: MAX_FILES_def)
  with pushFilesWith_kept[of v uid url arr prev] pushFilesWith_spec[of v uid url arr prev]
    pushFiles_source[of uid url arr prev] run_length[of evs]
  show ?thesis by (simp add: Let_def)
qed

theorem pushFiles_cap_and_duplicates_witness:
  "length (items fourQueued) \<le> MAX_FILES \<and>
   take (MAX_FILES - length (items fourQueued)) crowdedFiles =
     [png ''a'', png ''b'', png ''c'', png ''d'', png ''a'', png ''b''] \<and>
   pushFilesWith validateFile exampleIds exampleIds crowdedFiles (items fourQueued) =
     Inr (items fourQueued, []) \<and>
   pushFiles exampleIds exampleIds crowdedFiles (items fourQueued) = Inr (items fourQueued, []) \<and>
   length (items fourQueued) \<le> MAX_FILES"
proof -
  have l: "length (items fourQueued) \<le> MAX_FILES"
    by (simp add: fourQueued_def MAX_FILES_def)
  have t: "take (MAX_FILES - length (items fourQueued)) crowdedFiles =
     [png ''a'', png ''b'', png ''c'', png ''d'', png ''a'', png ''b'']"
    by (simp add: fourQueued_def MAX_FILES_def crowdedFiles_def)
  have k: "filter (\<lambda>f. \<not> (\<exists>x \<in> set (items fourQueued). isDuplicate f (item_file x)))
             (take (MAX_FILES - length (items fourQueued)) crowdedFiles) = []"
    unfolding t by (simp add: fourQueued_def queuedItem_def isDuplicate_def png_def)
  have p: "pushFilesWith validateFile exampleIds exampleIds crowdedFiles (items fourQueued) =
             Inr (items fourQueued, [])"
    using pushFiles_source[of exampleIds exampleIds crowdedFiles "items fourQueued"] k
    by (simp add: pushFiles_def)
  from pushFiles_cap_and_duplicates[of "items fourQueued" crowdedFiles validateFile exampleIds
      exampleIds "[]"] l t k p
  show ?thesis by (simp add: Let_def)
qed

text \<open>
  The same enqueue with one new file among those that the updater looks at throws; with
  the constants in scope it would add the new images and report the file of the wrong
  type.
\<close>

lemma pushFiles_throws_example:
  "pushFiles exampleIds exampleIds moreFiles (items fourQueued) = Inl (NotDefined ''ACCEPT'')"
  unfolding pushFiles_source
  by (simp add: fourQueued_def MAX_FILES_def moreFiles_def queuedItem_def isDuplicate_def png_def)

lemma pushFilesWith_in_scope_example:
  "map_sum id (\<lambda>r. (map (file_name \<circ> item_file) (fst r), snd r))
     (pushFilesWith validateInScope exampleIds exampleIds moreFiles (items fourQueued)) =
   Inr ([''a'', ''b'', ''c'', ''d'', ''e'', ''f'', ''g'', ''h''], [(''x'', BadType ''image/gif'')])"
  by (simp add: pushFilesWith_def MAX_FILES_def png_def validateInScope_def validateBody_def
        ACCEPT_def MAX_SIZE_BYTES_def isDuplicate_def moreFiles_def fourQueued_def queuedItem_def)

end
